theory Spec2Isabelle
  imports Main "HOL-Library.Word" "HOL-Library.Sublist"
begin

section \<open>Machine types\<close>

text \<open>
  The header is modelled for an LP64 platform: \<^verbatim>\<open>size_t\<close> and \<^verbatim>\<open>long\<close> are 64 bits wide,
  \<^verbatim>\<open>i32\<close> is \<^verbatim>\<open>int32_t\<close>. Unsigned arithmetic wraps modulo \<open>2 ^ 64\<close>, as in C.
\<close>

type_synonym size_t = "64 word"
type_synonym i32 = "32 word"
type_synonym long = "64 word"

section \<open>Pointers and the heap\<close>

text \<open>
  A pointer names an allocation (a block) and an element offset into it. Block \<open>0\<close> is
  never allocated, so \<open>Ptr 0 0\<close> is the null pointer. Pointer arithmetic moves the offset.
  The heap maps each live block to its contents.
\<close>

datatype ptr = Ptr (blk: nat) (off: nat)

definition NULL :: ptr where
  "NULL = Ptr 0 0"

definition ptr_add :: "ptr \<Rightarrow> size_t \<Rightarrow> ptr" where
  "ptr_add p n = Ptr (blk p) (off p + unat n)"

type_synonym 'a heap = "nat \<Rightarrow> 'a list option"

text \<open>The cells from \<open>p\<close> to the end of its block; no cells at all behind a dead pointer.\<close>

definition cells :: "'a heap \<Rightarrow> ptr \<Rightarrow> 'a list" where
  "cells h p =
     (if blk p = 0 then []
      else case h (blk p) of None \<Rightarrow> [] | Some ys \<Rightarrow> drop (off p) ys)"

text \<open>Reading \<^verbatim>\<open>*p\<close>: \<open>None\<close> is an access outside every live block.\<close>

definition load :: "'a heap \<Rightarrow> ptr \<Rightarrow> 'a option" where
  "load h p = (case cells h p of [] \<Rightarrow> None | c # _ \<Rightarrow> Some c)"

text \<open>Writing the elements \<open>xs\<close> from \<open>p\<close> on; \<open>None\<close> when they do not fit the block.\<close>

definition store_list :: "'a heap \<Rightarrow> ptr \<Rightarrow> 'a list \<Rightarrow> 'a heap option" where
  "store_list h p xs =
     (if blk p = 0 then None
      else case h (blk p) of
        None \<Rightarrow> None
      | Some ys \<Rightarrow>
          if off p + length xs \<le> length ys
          then Some (h(blk p \<mapsto> take (off p) ys @ xs @ drop (off p + length xs) ys))
          else None)"

section \<open>Strings and views\<close>

text \<open>
  \<^verbatim>\<open>struct vec_T { T *data; size_t size, alloc; }\<close>; \<^verbatim>\<open>TD_String\<close> is the same layout
  with \<^verbatim>\<open>char\<close> elements. \<^verbatim>\<open>TD_String_View\<close> is \<^verbatim>\<open>{ char *data; size_t size; }\<close>.
\<close>

record vec_T =
  vec_data :: ptr
  vec_size :: size_t
  vec_alloc :: size_t

type_synonym TD_String = vec_T

record TD_String_View =
  sv_data :: ptr
  sv_size :: size_t

definition td_string_view_from_string :: "TD_String \<Rightarrow> TD_String_View" where
  "td_string_view_from_string str = \<lparr>sv_data = vec_data str, sv_size = vec_size str\<rparr>"

definition td_string_view_slice :: "TD_String_View \<Rightarrow> size_t \<Rightarrow> size_t \<Rightarrow> TD_String_View" where
  "td_string_view_slice v start end' =
     (let start1 = (if start > end' then end' else start);
          end1 = (if end' > sv_size v then sv_size v else end')
      in \<lparr>sv_data = ptr_add (sv_data v) start1, sv_size = end1 - start1\<rparr>)"

definition td_string_slice :: "TD_String \<Rightarrow> size_t \<Rightarrow> size_t \<Rightarrow> TD_String_View" where
  "td_string_slice str start end' =
     (let start1 = (if start > vec_size str then vec_size str else start);
          end1 = (if end' > vec_size str then vec_size str else end');
          end2 = (if end1 < start1 then start1 else end1)
      in \<lparr>sv_data = ptr_add (vec_data str) start1, sv_size = end2 - start1\<rparr>)"

text \<open>The bytes a view covers, and whether all of them lie inside a live block.\<close>

definition sv_bytes :: "char heap \<Rightarrow> TD_String_View \<Rightarrow> string" where
  "sv_bytes h v = take (unat (sv_size v)) (cells h (sv_data v))"

definition sv_valid :: "char heap \<Rightarrow> TD_String_View \<Rightarrow> bool" where
  "sv_valid h v \<longleftrightarrow> unat (sv_size v) \<le> length (cells h (sv_data v))"

text \<open>The address range of \<open>w\<close> lies inside the address range of \<open>v\<close>.\<close>

definition sv_within :: "TD_String_View \<Rightarrow> TD_String_View \<Rightarrow> bool" where
  "sv_within w v \<longleftrightarrow>
     blk (sv_data w) = blk (sv_data v) \<and> off (sv_data v) \<le> off (sv_data w) \<and>
     off (sv_data w) + unat (sv_size w) \<le> off (sv_data v) + unat (sv_size v)"

text \<open>The result size the clamp law promises: \<open>clamp(end,0,size) - clamp(start,0,clamp(end,0,size))\<close>.\<close>

definition clamp :: "size_t \<Rightarrow> size_t \<Rightarrow> size_t \<Rightarrow> size_t" where
  "clamp x lo hi = (if x < lo then lo else if x > hi then hi else x)"

definition slice_spec_size :: "TD_String_View \<Rightarrow> size_t \<Rightarrow> size_t \<Rightarrow> size_t" where
  "slice_spec_size v start end' =
     clamp end' 0 (sv_size v) - clamp start 0 (clamp end' 0 (sv_size v))"

section \<open>Tokenizing\<close>

text \<open>
  The scan of \<^verbatim>\<open>td_string_view_chop\<close>:
  \<^verbatim>\<open>while (i < v->size && v->data[i] != delim) i++;\<close>
  It returns the final \<open>i\<close>, or \<open>None\<close> when it reads outside every live block.
\<close>

function chop_scan :: "char heap \<Rightarrow> TD_String_View \<Rightarrow> char \<Rightarrow> size_t \<Rightarrow> size_t option" where
  "chop_scan h v delim i =
     (if i < sv_size v then
        (case load h (ptr_add (sv_data v) i) of
           None \<Rightarrow> None
         | Some c \<Rightarrow> if c \<noteq> delim then chop_scan h v delim (i + 1) else Some i)
      else Some i)"
  by pat_completeness auto
termination
proof (relation "measure (\<lambda>(h, v, delim, i). unat (sv_size v) - unat i)")
  show "wf (measure (\<lambda>(h, v, delim, i). unat (sv_size v) - unat i))"
    by simp
next
  fix h :: "char heap" and v :: TD_String_View and delim :: char and i :: size_t and c :: char
  assume "i < sv_size v"
  then have "unat i < unat (sv_size v)"
    by (simp add: word_less_nat_alt)
  moreover have "unat (sv_size v) < 2 ^ 64"
    using unsigned_less [of "sv_size v"] by simp
  ultimately have "unat (i + 1) = unat i + 1"
    by (simp add: unat_word_ariths)
  with \<open>unat i < unat (sv_size v)\<close>
  show "((h, v, delim, i + 1), (h, v, delim, i))
          \<in> measure (\<lambda>(h, v, delim, i). unat (sv_size v) - unat i)"
    by simp
qed

declare chop_scan.simps [simp del]

text \<open>
  \<^verbatim>\<open>td_string_view_chop(&v, delim)\<close> returns the chopped prefix and the updated \<^verbatim>\<open>*v\<close>.
\<close>

definition td_string_view_chop ::
  "char heap \<Rightarrow> TD_String_View \<Rightarrow> char \<Rightarrow> (TD_String_View \<times> TD_String_View) option" where
  "td_string_view_chop h v delim =
     (case chop_scan h v delim 0 of
        None \<Rightarrow> None
      | Some i \<Rightarrow>
          let out = \<lparr>sv_data = sv_data v, sv_size = i\<rparr> in
          if i < sv_size v
          then Some (out, \<lparr>sv_data = ptr_add (sv_data v) (i + 1), sv_size = sv_size v - (i + 1)\<rparr>)
          else Some (out, \<lparr>sv_data = ptr_add (sv_data v) i, sv_size = 0\<rparr>))"

section \<open>The vector macros\<close>

text \<open>
  How a macro body ends: it falls through with a result, it reaches \<^verbatim>\<open>TD_PANIC\<close> (the
  state at that moment is kept), it accesses memory outside a live block, or its loop
  never ends.
\<close>

datatype ('s, 'r) outcome = Returns 'r | Panics 's | Undefined | Loops

fun and_then :: "('s, 'a) outcome \<Rightarrow> ('a \<Rightarrow> ('s, 'b) outcome) \<Rightarrow> ('s, 'b) outcome" where
  "and_then (Returns x) f = f x"
| "and_then (Panics s) f = Panics s"
| "and_then Undefined f = Undefined"
| "and_then Loops f = Loops"

definition TD_VECINITSZ :: size_t where
  "TD_VECINITSZ = 1024"

text \<open>\<^verbatim>\<open>while ((capacity) > (vector)->alloc) (vector)->alloc *= 2;\<close>\<close>

partial_function (option) td__vec_alloc_loop :: "size_t \<Rightarrow> size_t \<Rightarrow> size_t option" where
  "td__vec_alloc_loop capacity a =
     (if capacity > a then td__vec_alloc_loop capacity (a * 2) else Some a)"

declare td__vec_alloc_loop.simps [code]

text \<open>
  The allocator \<^verbatim>\<open>TD_REALLOC\<close> is a parameter: from the heap, the old pointer and a byte
  count it gives the new heap and the new pointer. \<open>esz\<close> is \<^verbatim>\<open>sizeof(*(vector)->data)\<close>.
\<close>

type_synonym 'a allocator = "'a heap \<Rightarrow> ptr \<Rightarrow> size_t \<Rightarrow> 'a heap \<times> ptr"

type_synonym 'a vstate = "'a heap \<times> vec_T"

definition td__vec_alloc ::
  "'a allocator \<Rightarrow> size_t \<Rightarrow> 'a vstate \<Rightarrow> size_t \<Rightarrow> ('a vstate, 'a vstate) outcome" where
  "td__vec_alloc TD_REALLOC esz s capacity =
     (case s of (h, v) \<Rightarrow>
        if capacity > vec_alloc v then
          (case td__vec_alloc_loop capacity
                  (if vec_alloc v = 0 then TD_VECINITSZ else vec_alloc v) of
             None \<Rightarrow> Loops
           | Some a \<Rightarrow>
               (case TD_REALLOC h (vec_data v) (a * esz) of
                  (h', p) \<Rightarrow>
                    if p = NULL then Panics (h', v\<lparr>vec_alloc := a, vec_data := p\<rparr>)
                    else Returns (h', v\<lparr>vec_alloc := a, vec_data := p\<rparr>)))
        else Returns (h, v))"

definition td_vec_append ::
  "'a allocator \<Rightarrow> size_t \<Rightarrow> 'a vstate \<Rightarrow> 'a \<Rightarrow> ('a vstate, 'a vstate) outcome" where
  "td_vec_append TD_REALLOC esz s item =
     and_then (td__vec_alloc TD_REALLOC esz s (vec_size (snd s) + 1))
       (\<lambda>(h, v).
          case store_list h (ptr_add (vec_data v) (vec_size v)) [item] of
            None \<Rightarrow> Undefined
          | Some h' \<Rightarrow> Returns (h', v\<lparr>vec_size := vec_size v + 1\<rparr>))"

text \<open>
  \<^verbatim>\<open>memcpy(dst, src, n)\<close> on a heap of elements of \<open>esz\<close> bytes each, from the array
  \<open>src\<close>. Copying no bytes touches nothing. \<open>None\<close>: the copy reads past \<open>src\<close>, writes
  outside the block of \<open>dst\<close>, or ends inside an element.
\<close>

definition memcpy :: "size_t \<Rightarrow> 'a heap \<Rightarrow> ptr \<Rightarrow> 'a list \<Rightarrow> size_t \<Rightarrow> 'a heap option" where
  "memcpy esz h dst src n =
     (if n = 0 then Some h
      else if esz = 0 \<or> unat n mod unat esz \<noteq> 0 \<or> length src < unat n div unat esz then None
      else store_list h dst (take (unat n div unat esz) src))"

text \<open>
  The \<open>count\<close> argument of \<^verbatim>\<open>td_vec_append_bulk\<close> is program text. The macro writes it
  as it stands behind \<^verbatim>\<open>(vector)->size +\<close> in the capacity request and in parentheses in
  the byte count and the size update. An argument is an operand of \<open>+\<close> (a constant, a
  variable, a product, anything in parentheses) or a conditional \<^verbatim>\<open>c ? a : b\<close> whose
  condition is such an operand; arguments have no side effects. \<open>count_value\<close> is the
  value of \<^verbatim>\<open>(count)\<close>, \<open>size_plus s\<close> the value of \<^verbatim>\<open>s + count\<close> as C parses it:
  \<^verbatim>\<open>s + c ? a : b\<close> is \<^verbatim>\<open>(s + c) ? a : b\<close>.
\<close>

datatype count_expr = Operand size_t | Conditional size_t count_expr count_expr

fun count_value :: "count_expr \<Rightarrow> size_t" where
  "count_value (Operand n) = n"
| "count_value (Conditional c a b) = (if c \<noteq> 0 then count_value a else count_value b)"

fun size_plus :: "size_t \<Rightarrow> count_expr \<Rightarrow> size_t" where
  "size_plus s (Operand n) = s + n"
| "size_plus s (Conditional c a b) = (if s + c \<noteq> 0 then count_value a else count_value b)"

definition td_vec_append_bulk ::
  "'a allocator \<Rightarrow> size_t \<Rightarrow> 'a vstate \<Rightarrow> 'a list \<Rightarrow> count_expr \<Rightarrow>
     ('a vstate, 'a vstate) outcome" where
  "td_vec_append_bulk TD_REALLOC esz s items count =
     and_then (td__vec_alloc TD_REALLOC esz s (size_plus (vec_size (snd s)) count))
       (\<lambda>(h, v).
          case memcpy esz h (ptr_add (vec_data v) (vec_size v)) items (count_value count * esz) of
            None \<Rightarrow> Undefined
          | Some h' \<Rightarrow> Returns (h', v\<lparr>vec_size := vec_size v + count_value count\<rparr>))"

text \<open>A caller appending the items of a list one by one, in order.\<close>

fun td_vec_append_each ::
  "'a allocator \<Rightarrow> size_t \<Rightarrow> 'a vstate \<Rightarrow> 'a list \<Rightarrow> ('a vstate, 'a vstate) outcome" where
  "td_vec_append_each TD_REALLOC esz s [] = Returns s"
| "td_vec_append_each TD_REALLOC esz s (x # xs) =
     and_then (td_vec_append TD_REALLOC esz s x) (\<lambda>s'. td_vec_append_each TD_REALLOC esz s' xs)"

text \<open>Removing \<open>m\<close> elements from the end, as the primer has it: \<^verbatim>\<open>my_vector.size -= m\<close>.\<close>

definition td_vec_truncate :: "vec_T \<Rightarrow> size_t \<Rightarrow> vec_T" where
  "td_vec_truncate v m = v\<lparr>vec_size := vec_size v - m\<rparr>"

text \<open>\<^verbatim>\<open>struct vec_T my_vector = {0};\<close>\<close>

definition vec_zero :: vec_T where
  "vec_zero = \<lparr>vec_data = NULL, vec_size = 0, vec_alloc = 0\<rparr>"

text \<open>The live elements \<open>data[0..size)\<close>.\<close>

definition vec_elems :: "'a heap \<Rightarrow> vec_T \<Rightarrow> 'a list" where
  "vec_elems h v = take (unat (vec_size v)) (cells h (vec_data v))"

text \<open>
  The live elements are readable: \<open>data\<close> is null or the start of a block, the block
  holds at least \<open>size\<close> elements and fits the address space.
\<close>

definition vec_live :: "'a heap \<Rightarrow> vec_T \<Rightarrow> bool" where
  "vec_live h v \<longleftrightarrow>
     off (vec_data v) = 0 \<and>
     unat (vec_size v) \<le> length (cells h (vec_data v)) \<and>
     length (cells h (vec_data v)) < 2 ^ 64"

text \<open>
  A well-formed vector: \<open>size \<le> alloc\<close>, \<open>data\<close> is null or the start of a block, the
  block has room for \<open>alloc\<close> elements and fits the address space.
\<close>

definition vec_ok :: "'a heap \<Rightarrow> vec_T \<Rightarrow> bool" where
  "vec_ok h v \<longleftrightarrow>
     off (vec_data v) = 0 \<and> vec_size v \<le> vec_alloc v \<and>
     unat (vec_alloc v) \<le> length (cells h (vec_data v)) \<and>
     length (cells h (vec_data v)) < 2 ^ 64"

text \<open>
  What the C standard promises of \<^verbatim>\<open>realloc\<close>, as far as the vector relies on it: a
  non-null result is the start of a block of the requested byte size whose contents
  agree with the old block up to the shorter of the two lengths.
\<close>

definition realloc_ok :: "size_t \<Rightarrow> 'a allocator \<Rightarrow> bool" where
  "realloc_ok esz R \<longleftrightarrow>
     (\<forall>h p n. case R h p n of
        (h', p') \<Rightarrow>
          p' \<noteq> NULL \<longrightarrow>
            blk p' \<noteq> 0 \<and> off p' = 0 \<and> length (cells h' p') = unat n div unat esz \<and>
            take (min (length (cells h p)) (length (cells h' p'))) (cells h' p')
              = take (min (length (cells h p)) (length (cells h' p'))) (cells h p))"

definition never_fails :: "'a allocator \<Rightarrow> bool" where
  "never_fails R \<longleftrightarrow> (\<forall>h p n. snd (R h p n) \<noteq> NULL)"

text \<open>Two allocators to run the macros with: one out of memory, one resizing in place.\<close>

definition realloc_fails :: "'a allocator" where
  "realloc_fails h p n = (h, NULL)"

definition realloc_in_place :: "'a \<Rightarrow> size_t \<Rightarrow> 'a allocator" where
  "realloc_in_place junk esz h p n =
     (let b = (if blk p = 0 then 1 else blk p);
          old = cells h p;
          k = unat n div unat esz
      in (h(b \<mapsto> take k old @ replicate (k - length old) junk), Ptr b 0))"

section \<open>Reading a file\<close>

text \<open>
  The \<^verbatim>\<open>FILE\<close> handle as far as \<^verbatim>\<open>td_read_file_to_string\<close> uses it: the bytes of the
  file, the position, whether \<^verbatim>\<open>fseek\<close> and \<^verbatim>\<open>ftell\<close> succeed, and after how many bytes
  \<^verbatim>\<open>fread\<close> meets an I/O error.
\<close>

record FILE =
  file_bytes :: string
  file_pos :: nat
  seek_ok :: bool
  tell_ok :: bool
  read_max :: nat

text \<open>\<^verbatim>\<open>fseek(fp, 0, SEEK_END)\<close>\<close>

definition fseek_end :: "FILE \<Rightarrow> int \<times> FILE" where
  "fseek_end fp =
     (if seek_ok fp then (0, fp\<lparr>file_pos := length (file_bytes fp)\<rparr>) else (- 1, fp))"

definition ftell :: "FILE \<Rightarrow> long" where
  "ftell fp = (if tell_ok fp then word_of_nat (file_pos fp) else - 1)"

definition rewind :: "FILE \<Rightarrow> FILE" where
  "rewind fp = fp\<lparr>file_pos := 0\<rparr>"

text \<open>
  \<^verbatim>\<open>fread(buf, 1, n, fp)\<close>: the bytes delivered are written to \<open>buf\<close> and counted; \<open>None\<close>
  when they do not fit the block of \<open>buf\<close>.
\<close>

definition fread :: "char heap \<Rightarrow> ptr \<Rightarrow> size_t \<Rightarrow> FILE \<Rightarrow> (char heap \<times> size_t \<times> FILE) option" where
  "fread h buf n fp =
     (let got = take (min (unat n) (read_max fp)) (drop (file_pos fp) (file_bytes fp)) in
      if got = [] then Some (h, 0, fp)
      else case store_list h buf got of
             None \<Rightarrow> None
           | Some h' \<Rightarrow>
               Some (h', word_of_nat (length got), fp\<lparr>file_pos := file_pos fp + length got\<rparr>))"

text \<open>
  \<^verbatim>\<open>i32 file_size = ftell(fp)\<close> keeps the low 32 bits of the \<^verbatim>\<open>long\<close>;
  \<^verbatim>\<open>(size_t)file_size\<close> extends the sign. The result is the returned \<^verbatim>\<open>bool\<close> with
  the heap, the string and the handle.
\<close>

definition td_read_file_to_string ::
  "char allocator \<Rightarrow> char vstate \<Rightarrow> FILE \<Rightarrow>
     (char vstate, bool \<times> char vstate \<times> FILE) outcome" where
  "td_read_file_to_string TD_REALLOC s fp =
     (case fseek_end fp of
        (rc, fp1) \<Rightarrow>
          if rc \<noteq> 0 then Returns (False, s, fp1)
          else
            let file_size = (ucast (ftell fp1) :: i32) in
            if sint file_size < 0 then Returns (False, s, fp1)
            else
              let fp2 = rewind fp1 in
              and_then (td__vec_alloc TD_REALLOC 1 s (scast file_size))
                (\<lambda>(h, str).
                   case fread h (vec_data str) (scast file_size) fp2 of
                     None \<Rightarrow> Undefined
                   | Some (h', read, fp3) \<Rightarrow>
                       if read \<noteq> scast file_size then Returns (False, (h', str), fp3)
                       else Returns (True, (h', str\<lparr>vec_size := read\<rparr>), fp3)))"

text \<open>
  The length as \<^verbatim>\<open>td_read_file_to_string\<close> probes it; \<open>None\<close> where it returns
  \<^verbatim>\<open>false\<close> before growing the string.
\<close>

definition probe_size :: "FILE \<Rightarrow> size_t option" where
  "probe_size fp =
     (case fseek_end fp of
        (rc, fp1) \<Rightarrow>
          if rc \<noteq> 0 then None
          else
            let file_size = (ucast (ftell fp1) :: i32) in
            if sint file_size < 0 then None else Some (scast file_size))"

section \<open>Example states\<close>

text \<open>The heap with no live block, and a readable file of \<open>n\<close> bytes.\<close>

definition heap_empty :: "'a heap" where
  "heap_empty = (\<lambda>b. None)"

definition file_of :: "string \<Rightarrow> FILE" where
  "file_of bs =
     \<lparr>file_bytes = bs, file_pos = 0, seek_ok = True, tell_ok = True, read_max = length bs\<rparr>"

text \<open>A heap whose block 1 holds the five bytes \<^verbatim>\<open>a,b,c\<close>.\<close>

definition heap_abc :: "char heap" where
  "heap_abc = (\<lambda>b. if b = 1 then Some ''a,b,c'' else None)"

section \<open>Slicing\<close>

text \<open>
  When the smaller of the two indices lies inside the view, \<^verbatim>\<open>td_string_view_slice\<close>
  obeys the clamp law and stays inside the view.
\<close>

lemma slice_size_in_range:
  "min start end' \<le> sv_size v \<Longrightarrow>
   sv_size (td_string_view_slice v start end') = slice_spec_size v start end'"
  by (auto simp: td_string_view_slice_def slice_spec_size_def clamp_def Let_def min_def
      split: if_splits)

lemma slice_within_in_range:
  assumes "min start end' \<le> sv_size v"
  shows "sv_within (td_string_view_slice v start end') v"
proof -
  define s where "s = (if start > end' then end' else start)"
  define e where "e = (if end' > sv_size v then sv_size v else end')"
  from assms have "s \<le> e" "e \<le> sv_size v"
    by (auto simp: s_def e_def min_def split: if_splits)
  then have "unat (e - s) = unat e - unat s" "unat s \<le> unat e" "unat e \<le> unat (sv_size v)"
    by (simp_all add: unat_sub word_le_nat_alt)
  then show ?thesis
    by (simp add: td_string_view_slice_def sv_within_def ptr_add_def Let_def
        flip: s_def e_def)
qed

text \<open>
  C1. The clamp law of \<^verbatim>\<open>td_string_view_slice\<close> fails when both indices lie past the end
  of the view: for a view of 3 bytes, \<open>start = 5\<close> and \<open>end = 10\<close>, the start is not
  clamped (it is compared with the unclamped end), the subtraction \<open>3 - 5\<close> wraps around
  to \<open>2 ^ 64 - 2\<close>, and the result starts 5 bytes in, outside the view. The clamp law
  asks for size \<open>0\<close>.
\<close>

theorem td_string_view_slice_wraps:
  "td_string_view_slice \<lparr>sv_data = Ptr 1 0, sv_size = 3\<rparr> 5 10
     = \<lparr>sv_data = Ptr 1 5, sv_size = 18446744073709551614\<rparr>
   \<and> slice_spec_size \<lparr>sv_data = Ptr 1 0, sv_size = 3\<rparr> 5 10 = 0
   \<and> \<not> sv_within (td_string_view_slice \<lparr>sv_data = Ptr 1 0, sv_size = 3\<rparr> 5 10)
         \<lparr>sv_data = Ptr 1 0, sv_size = 3\<rparr>"
  by (simp add: td_string_view_slice_def slice_spec_size_def clamp_def sv_within_def
      ptr_add_def Let_def)

text \<open>
  C4 as stated: \<^verbatim>\<open>td_string_slice\<close> and \<^verbatim>\<open>td_string_view_slice\<close> over the string's view
  return the same view. With both indices inside the string but \<open>start > end\<close>, each
  returns an empty view, at different places: for a string of 10 bytes, \<open>start = 5\<close>
  and \<open>end = 2\<close>, \<^verbatim>\<open>td_string_slice\<close> raises the end to the start (offset 5), while
  \<^verbatim>\<open>td_string_view_slice\<close> lowers the start to the end (offset 2).
\<close>

theorem td_string_slice_offset_differs:
  "td_string_slice \<lparr>vec_data = Ptr 1 0, vec_size = 10, vec_alloc = 1024\<rparr> 5 2
     = \<lparr>sv_data = Ptr 1 5, sv_size = 0\<rparr>
   \<and> td_string_view_slice
       (td_string_view_from_string \<lparr>vec_data = Ptr 1 0, vec_size = 10, vec_alloc = 1024\<rparr>) 5 2
     = \<lparr>sv_data = Ptr 1 2, sv_size = 0\<rparr>
   \<and> td_string_slice \<lparr>vec_data = Ptr 1 0, vec_size = 10, vec_alloc = 1024\<rparr> 5 2
     \<noteq> td_string_view_slice
         (td_string_view_from_string \<lparr>vec_data = Ptr 1 0, vec_size = 10, vec_alloc = 1024\<rparr>) 5 2"
  by (simp add: td_string_slice_def td_string_view_slice_def td_string_view_from_string_def
      ptr_add_def Let_def)

text \<open>
  C4, amended: when the smaller of the two indices lies inside the string's extent, both
  operations return views of the same size, and when moreover \<open>start \<le> end\<close> they return
  the same view (same data pointer, same size). With \<open>start > end\<close> and \<open>end\<close> inside the
  extent both views are empty, the one of \<^verbatim>\<open>td_string_slice\<close> at \<open>data + min(start, size)\<close>
  and the one of \<^verbatim>\<open>td_string_view_slice\<close> at \<open>data + end\<close>.
\<close>

theorem td_string_slice_agrees:
  "(min start end' \<le> vec_size str \<longrightarrow>
      sv_size (td_string_slice str start end')
        = sv_size (td_string_view_slice (td_string_view_from_string str) start end'))
   \<and> (start \<le> end' \<and> start \<le> vec_size str \<longrightarrow>
      td_string_slice str start end'
        = td_string_view_slice (td_string_view_from_string str) start end')
   \<and> (end' < start \<and> end' \<le> vec_size str \<longrightarrow>
      td_string_slice str start end'
        = \<lparr>sv_data = ptr_add (vec_data str) (min start (vec_size str)), sv_size = 0\<rparr>
      \<and> td_string_view_slice (td_string_view_from_string str) start end'
        = \<lparr>sv_data = ptr_add (vec_data str) end', sv_size = 0\<rparr>)"
  by (auto simp: td_string_slice_def td_string_view_slice_def td_string_view_from_string_def
      Let_def min_def split: if_splits)

theorem td_string_slice_agrees_witness:
  "min 2 7 \<le> vec_size \<lparr>vec_data = Ptr 1 0, vec_size = 5, vec_alloc = 1024\<rparr>
   \<and> (2::size_t) \<le> 7
   \<and> td_string_slice \<lparr>vec_data = Ptr 1 0, vec_size = 5, vec_alloc = 1024\<rparr> 2 7
       = \<lparr>sv_data = Ptr 1 2, sv_size = 3\<rparr>
   \<and> td_string_view_slice
         (td_string_view_from_string \<lparr>vec_data = Ptr 1 0, vec_size = 5, vec_alloc = 1024\<rparr>) 2 7
       = \<lparr>sv_data = Ptr 1 2, sv_size = 3\<rparr>
   \<and> (4::size_t) < 9
   \<and> 4 \<le> vec_size \<lparr>vec_data = Ptr 1 0, vec_size = 5, vec_alloc = 1024\<rparr>
   \<and> td_string_slice \<lparr>vec_data = Ptr 1 0, vec_size = 5, vec_alloc = 1024\<rparr> 9 4
       = \<lparr>sv_data = Ptr 1 5, sv_size = 0\<rparr>
   \<and> td_string_view_slice
         (td_string_view_from_string \<lparr>vec_data = Ptr 1 0, vec_size = 5, vec_alloc = 1024\<rparr>) 9 4
       = \<lparr>sv_data = Ptr 1 4, sv_size = 0\<rparr>"
  using td_string_slice_agrees
    [of 2 7 "\<lparr>vec_data = Ptr 1 0, vec_size = 5, vec_alloc = 1024\<rparr>"]
    td_string_slice_agrees
    [of 9 4 "\<lparr>vec_data = Ptr 1 0, vec_size = 5, vec_alloc = 1024\<rparr>"]
  by (simp add: td_string_slice_def ptr_add_def Let_def)

section \<open>Tokenizing: the result of a chop\<close>

text \<open>
  The scan stops at the first delimiter or at the end of the view; the prefix it leaves
  is the longest one without a delimiter.
\<close>

lemma unat_succ: "i < (n::size_t) \<Longrightarrow> unat (i + 1) = unat i + 1"
proof -
  assume "i < n"
  then have lt: "unat i < unat n" by (simp add: word_less_nat_alt)
  have "unat n < 2 ^ 64" using unsigned_less [of n] by simp
  with lt show ?thesis by (simp add: unat_word_ariths)
qed

lemma load_view:
  assumes "sv_valid h v" "i < sv_size v"
  shows "load h (ptr_add (sv_data v) i) = Some (sv_bytes h v ! unat i)"
proof -
  from assms(2) have lt: "unat i < unat (sv_size v)" by (simp add: word_less_nat_alt)
  with assms(1) have len: "unat i < length (cells h (sv_data v))" by (simp add: sv_valid_def)
  have "cells h (ptr_add (sv_data v) i) = drop (unat i) (cells h (sv_data v))"
    by (simp add: cells_def ptr_add_def add.commute split: option.splits)
  with len lt show ?thesis
    by (simp add: load_def sv_bytes_def Cons_nth_drop_Suc [symmetric])
qed

lemma chop_scan_takeWhile: "sv_valid h v \<Longrightarrow> unat i \<le> unat (sv_size v) \<Longrightarrow>
  chop_scan h v d i = Some (word_of_nat (unat i + length (takeWhile (\<lambda>c. c \<noteq> d) (drop (unat i) (sv_bytes h v)))))"
proof (induction h v d i rule: chop_scan.induct)
  case (1 h v delim i)
  have len: "length (sv_bytes h v) = unat (sv_size v)"
    using 1(2) by (simp add: sv_bytes_def sv_valid_def)
  show ?case
  proof (cases "i < sv_size v")
    case False
    with 1(3) have "unat (sv_size v) \<le> unat i" by (simp add: word_less_nat_alt)
    with len have "drop (unat i) (sv_bytes h v) = []" by simp
    with False show ?thesis
      by (subst chop_scan.simps) simp
  next
    case True
    then have lt: "unat i < unat (sv_size v)" by (simp add: word_less_nat_alt)
    note suc = unat_succ [OF True]
    note ld = load_view [OF 1(2) True]
    from lt len have dr: "drop (unat i) (sv_bytes h v) = sv_bytes h v ! unat i # drop (Suc (unat i)) (sv_bytes h v)"
      by (simp add: Cons_nth_drop_Suc)
    show ?thesis
    proof (cases "sv_bytes h v ! unat i = delim")
      case True
      with \<open>i < sv_size v\<close> ld dr show ?thesis
        by (subst chop_scan.simps) simp
    next
      case False
      with 1(1) [OF \<open>i < sv_size v\<close> ld _ 1(2)] suc lt
      have "chop_scan h v delim (i + 1) = Some (word_of_nat (unat i + 1 + length (takeWhile (\<lambda>c. c \<noteq> delim) (drop (unat i + 1) (sv_bytes h v)))))"
        by simp
      with False \<open>i < sv_size v\<close> ld dr show ?thesis
        by (subst chop_scan.simps) simp
    qed
  qed
qed

lemma cells_ptr_add: "cells h (ptr_add p n) = drop (unat n) (cells h p)"
  by (simp add: cells_def ptr_add_def add.commute split: option.splits)

lemma sv_bytes_length: "sv_valid h v \<Longrightarrow> length (sv_bytes h v) = unat (sv_size v)"
  by (simp add: sv_bytes_def sv_valid_def)

lemma td_string_view_chop_result:
  assumes "sv_valid h v"
  shows "\<exists>out v'. td_string_view_chop h v d = Some (out, v')
     \<and> sv_data out = sv_data v
     \<and> unat (sv_size out) = length (takeWhile (\<lambda>c. c \<noteq> d) (sv_bytes h v))
     \<and> sv_bytes h out = takeWhile (\<lambda>c. c \<noteq> d) (sv_bytes h v)
     \<and> (d \<in> set (sv_bytes h v) \<longrightarrow>
           sv_data v' = ptr_add (sv_data v) (sv_size out + 1)
         \<and> unat (sv_size out + 1) = unat (sv_size out) + 1
         \<and> unat (sv_size v') + (unat (sv_size out) + 1) = unat (sv_size v)
         \<and> sv_bytes h v' = tl (dropWhile (\<lambda>c. c \<noteq> d) (sv_bytes h v)))
     \<and> (d \<notin> set (sv_bytes h v) \<longrightarrow>
           sv_data v' = ptr_add (sv_data v) (sv_size out)
         \<and> sv_bytes h out = sv_bytes h v
         \<and> sv_size out = sv_size v \<and> sv_size v' = 0)"
proof -
  define bs where "bs = sv_bytes h v"
  define n where "n = length (takeWhile (\<lambda>c. c \<noteq> d) bs)"
  define i :: size_t where "i = word_of_nat n"
  have len: "length bs = unat (sv_size v)"
    using assms by (simp add: bs_def sv_bytes_length)
  have n_le: "n \<le> unat (sv_size v)"
    using length_takeWhile_le [of "\<lambda>c. c \<noteq> d" bs] len by (simp add: n_def)
  have "unat (sv_size v) < 2 ^ 64"
    using unsigned_less [of "sv_size v"] by simp
  with n_le have un: "unat i = n"
    by (simp add: i_def unat_of_nat)
  have scan: "chop_scan h v d 0 = Some i"
    using chop_scan_takeWhile [OF assms, of 0 d] by (simp add: i_def n_def bs_def)
  have tw_take: "takeWhile (\<lambda>c. c \<noteq> d) bs = take n bs"
    unfolding n_def by (rule takeWhile_eq_take)
  have out: "take n (cells h (sv_data v)) = takeWhile (\<lambda>c. c \<noteq> d) bs"
  proof -
    note tw_take
    also have "\<dots> = take n (cells h (sv_data v))"
      using n_le by (simp add: bs_def sv_bytes_def min_def)
    finally show ?thesis by simp
  qed
  show ?thesis
  proof (cases "d \<in> set bs")
    case True
    then have "takeWhile (\<lambda>c. c \<noteq> d) bs \<noteq> bs"
      by auto
    with tw_take have "n < length bs"
      by (cases "n < length bs") auto
    then have lt: "i < sv_size v"
      using len un by (simp add: word_less_nat_alt)
    have suc: "unat (i + 1) = n + 1"
      using unat_succ [OF lt] un by simp
    have le: "i + 1 \<le> sv_size v"
      using lt by (rule inc_le)
    have sub: "unat (sv_size v - (i + 1)) = unat (sv_size v) - (n + 1)"
      using le suc by (simp add: unat_sub)
    have "take (unat (sv_size v) - (n + 1)) (drop (n + 1) (cells h (sv_data v))) = drop (n + 1) bs"
      by (simp add: bs_def sv_bytes_def drop_take)
    also have "\<dots> = tl (drop n bs)"
      by (simp add: drop_Suc tl_drop)
    also have "drop n bs = dropWhile (\<lambda>c. c \<noteq> d) bs"
      unfolding n_def by (rule dropWhile_eq_drop [symmetric])
    finally have rest: "take (unat (sv_size v) - (n + 1)) (drop (n + 1) (cells h (sv_data v)))
        = tl (dropWhile (\<lambda>c. c \<noteq> d) bs)" .
    have res: "td_string_view_chop h v d
        = Some (\<lparr>sv_data = sv_data v, sv_size = i\<rparr>,
                \<lparr>sv_data = ptr_add (sv_data v) (i + 1), sv_size = sv_size v - (i + 1)\<rparr>)"
      using scan lt by (simp add: td_string_view_chop_def)
    have b1: "sv_bytes h \<lparr>sv_data = sv_data v, sv_size = i\<rparr> = takeWhile (\<lambda>c. c \<noteq> d) bs"
      using out by (simp add: sv_bytes_def un)
    have b2: "sv_bytes h \<lparr>sv_data = ptr_add (sv_data v) (i + 1), sv_size = sv_size v - (i + 1)\<rparr>
        = tl (dropWhile (\<lambda>c. c \<noteq> d) bs)"
      using rest by (simp add: sv_bytes_def suc sub cells_ptr_add)
    have b3: "unat (sv_size v - (i + 1)) + (n + 1) = unat (sv_size v)"
      using sub \<open>n < length bs\<close> len by simp
    show ?thesis
      unfolding bs_def [symmetric] n_def [symmetric] using True res b1 b2 b3 un suc by simp
  next
    case False
    then have tw: "takeWhile (\<lambda>c. c \<noteq> d) bs = bs"
      by auto
    have "n = unat (sv_size v)"
      unfolding n_def tw by (rule len)
    then have nlt: "\<not> i < sv_size v"
      using un by (simp add: word_less_nat_alt)
    have res: "td_string_view_chop h v d
        = Some (\<lparr>sv_data = sv_data v, sv_size = i\<rparr>,
                \<lparr>sv_data = ptr_add (sv_data v) i, sv_size = 0\<rparr>)"
      using scan nlt by (simp add: td_string_view_chop_def)
    have b1: "sv_bytes h \<lparr>sv_data = sv_data v, sv_size = i\<rparr> = bs"
      using out tw by (simp add: sv_bytes_def un)
    have "i = sv_size v"
      using un \<open>n = unat (sv_size v)\<close> by (simp add: word_unat_eq_iff)
    then show ?thesis
      unfolding bs_def [symmetric] n_def [symmetric] using False res b1 un by (simp add: tw)
  qed
qed

lemma chop_empty: "sv_size v = 0 \<Longrightarrow> td_string_view_chop h v d = Some (v, v)"
  by (subst td_string_view_chop_def, subst chop_scan.simps) (simp add: ptr_add_def)

text \<open>
  C6. On a view whose bytes lie inside a live block, \<^verbatim>\<open>td_string_view_chop\<close> returns the
  prefix up to but excluding the first occurrence of the delimiter and moves the view just
  past that delimiter; without a delimiter it returns the whole view and leaves the view
  empty. Chopping an empty view returns the empty view and changes nothing. Over
  \<^verbatim>\<open>a,b,c\<close> the chops by a comma yield \<^verbatim>\<open>a\<close>, \<^verbatim>\<open>b\<close>, \<^verbatim>\<open>c\<close>, then the view is empty and
  a further chop yields the empty view.
\<close>

theorem td_string_view_chop_tokens:
  "(sv_valid h v \<longrightarrow>
      (\<exists>out v'. td_string_view_chop h v d = Some (out, v')
         \<and> sv_data out = sv_data v
         \<and> sv_bytes h out = takeWhile (\<lambda>c. c \<noteq> d) (sv_bytes h v)
         \<and> (d \<in> set (sv_bytes h v) \<longrightarrow>
               sv_data v' = ptr_add (sv_data v) (sv_size out + 1)
             \<and> sv_bytes h v' = tl (dropWhile (\<lambda>c. c \<noteq> d) (sv_bytes h v)))
         \<and> (d \<notin> set (sv_bytes h v) \<longrightarrow>
               sv_bytes h out = sv_bytes h v \<and> sv_size v' = 0)))
   \<and> (sv_size v = 0 \<longrightarrow> td_string_view_chop h v d = Some (v, v))
   \<and> td_string_view_chop heap_abc \<lparr>sv_data = Ptr 1 0, sv_size = 5\<rparr> CHR '',''
       = Some (\<lparr>sv_data = Ptr 1 0, sv_size = 1\<rparr>, \<lparr>sv_data = Ptr 1 2, sv_size = 3\<rparr>)
   \<and> td_string_view_chop heap_abc \<lparr>sv_data = Ptr 1 2, sv_size = 3\<rparr> CHR '',''
       = Some (\<lparr>sv_data = Ptr 1 2, sv_size = 1\<rparr>, \<lparr>sv_data = Ptr 1 4, sv_size = 1\<rparr>)
   \<and> td_string_view_chop heap_abc \<lparr>sv_data = Ptr 1 4, sv_size = 1\<rparr> CHR '',''
       = Some (\<lparr>sv_data = Ptr 1 4, sv_size = 1\<rparr>, \<lparr>sv_data = Ptr 1 5, sv_size = 0\<rparr>)
   \<and> td_string_view_chop heap_abc \<lparr>sv_data = Ptr 1 5, sv_size = 0\<rparr> CHR '',''
       = Some (\<lparr>sv_data = Ptr 1 5, sv_size = 0\<rparr>, \<lparr>sv_data = Ptr 1 5, sv_size = 0\<rparr>)
   \<and> sv_bytes heap_abc \<lparr>sv_data = Ptr 1 0, sv_size = 5\<rparr> = ''a,b,c''
   \<and> sv_bytes heap_abc \<lparr>sv_data = Ptr 1 0, sv_size = 1\<rparr> = ''a''
   \<and> sv_bytes heap_abc \<lparr>sv_data = Ptr 1 2, sv_size = 1\<rparr> = ''b''
   \<and> sv_bytes heap_abc \<lparr>sv_data = Ptr 1 4, sv_size = 1\<rparr> = ''c''
   \<and> sv_bytes heap_abc \<lparr>sv_data = Ptr 1 5, sv_size = 0\<rparr> = []"
proof (intro conjI impI)
  assume "sv_valid h v"
  from td_string_view_chop_result [OF this, of d]
  show "\<exists>out v'. td_string_view_chop h v d = Some (out, v')
         \<and> sv_data out = sv_data v
         \<and> sv_bytes h out = takeWhile (\<lambda>c. c \<noteq> d) (sv_bytes h v)
         \<and> (d \<in> set (sv_bytes h v) \<longrightarrow>
               sv_data v' = ptr_add (sv_data v) (sv_size out + 1)
             \<and> sv_bytes h v' = tl (dropWhile (\<lambda>c. c \<noteq> d) (sv_bytes h v)))
         \<and> (d \<notin> set (sv_bytes h v) \<longrightarrow>
               sv_bytes h out = sv_bytes h v \<and> sv_size v' = 0)"
    by blast
next
  assume "sv_size v = 0"
  then show "td_string_view_chop h v d = Some (v, v)"
    by (rule chop_empty)
qed (simp_all add: td_string_view_chop_def chop_scan.simps load_def cells_def ptr_add_def
      heap_abc_def sv_bytes_def)

theorem td_string_view_chop_tokens_witness:
  "sv_valid heap_abc \<lparr>sv_data = Ptr 1 2, sv_size = 3\<rparr>
   \<and> CHR '','' \<in> set (sv_bytes heap_abc \<lparr>sv_data = Ptr 1 2, sv_size = 3\<rparr>)
   \<and> (\<exists>out v'. td_string_view_chop heap_abc \<lparr>sv_data = Ptr 1 2, sv_size = 3\<rparr> CHR '',''
          = Some (out, v')
        \<and> sv_bytes heap_abc out = ''b'' \<and> sv_bytes heap_abc v' = ''c'')"
  using td_string_view_chop_tokens [of heap_abc "\<lparr>sv_data = Ptr 1 2, sv_size = 3\<rparr>" "CHR '',''"]
  by (simp add: sv_valid_def sv_bytes_def cells_def heap_abc_def)



section \<open>The growth loop\<close>

text \<open>
  The doubling loop ends with a capacity that covers the request. It may run forever:
  once \<open>alloc\<close> has wrapped around to \<open>0\<close> it stays there. It ends whenever the request is
  at most \<open>2 ^ 63\<close> and the start is not \<open>0\<close>, and then without wrap-around.
\<close>

lemmas loop_induct = td__vec_alloc_loop.raw_induct [rotated 1, consumes 1, case_names step]

lemma loop_stop: "capacity \<le> a \<Longrightarrow> td__vec_alloc_loop capacity a = Some a"
  by (subst td__vec_alloc_loop.simps) (simp add: leD)

lemma loop_step: "a < capacity \<Longrightarrow> td__vec_alloc_loop capacity a = td__vec_alloc_loop capacity (a * 2)"
  by (subst td__vec_alloc_loop.simps) simp

lemma unat_double: "unat (a :: size_t) < 2 ^ 63 \<Longrightarrow> unat (a * 2) = 2 * unat a"
  by (simp add: unat_word_ariths)

lemma loop_covers:
  "td__vec_alloc_loop capacity a = Some y \<Longrightarrow> capacity \<le> y \<and> (a = 0 \<longrightarrow> y = 0)"
proof (induction rule: loop_induct)
  case (step loop capacity a y)
  then show ?case
    by (cases "a < capacity") (auto simp: not_less)
qed

lemma loop_diverges: "0 < capacity \<Longrightarrow> td__vec_alloc_loop capacity 0 = None"
proof (cases "td__vec_alloc_loop capacity 0")
  case None
  then show ?thesis .
next
  case (Some y)
  from loop_covers [OF Some] have "capacity = 0" by auto
  moreover assume "0 < capacity"
  ultimately show ?thesis by simp
qed

lemma loop_doubles:
  "td__vec_alloc_loop capacity a = Some y \<Longrightarrow> unat capacity \<le> 2 ^ 63 \<Longrightarrow>
     \<exists>k. unat y = unat a * 2 ^ k \<and> (\<forall>i<k. unat a * 2 ^ i < unat capacity)"
proof (induction rule: loop_induct)
  case (step loop capacity a y)
  show ?case
  proof (cases "a < capacity")
    case False
    with step(2) have "y = a" by simp
    then show ?thesis by (intro exI [of _ 0]) simp
  next
    case True
    then have lt: "unat a < unat capacity" by (simp add: word_less_nat_alt)
    with step(3) have dbl: "unat (a * 2) = 2 * unat a" by (intro unat_double) simp
    from True step(2) have "loop capacity (a * 2) = Some y" by simp
    from step(1) [OF this step(3)] obtain k where
      k: "unat y = unat (a * 2) * 2 ^ k" "\<forall>i<k. unat (a * 2) * 2 ^ i < unat capacity"
      by blast
    have "\<forall>i<Suc k. unat a * 2 ^ i < unat capacity"
    proof (intro allI impI)
      fix i assume "i < Suc k"
      show "unat a * 2 ^ i < unat capacity"
      proof (cases i)
        case 0 with lt show ?thesis by simp
      next
        case (Suc j)
        with \<open>i < Suc k\<close> k(2) have "unat (a * 2) * 2 ^ j < unat capacity" by simp
        with Suc dbl show ?thesis by (simp add: mult.assoc)
      qed
    qed
    moreover have "unat y = unat a * 2 ^ Suc k"
      using k(1) dbl by (simp add: mult.assoc)
    ultimately show ?thesis by blast
  qed
qed

lemma loop_terminates:
  "unat capacity \<le> 2 ^ 63 \<Longrightarrow> a \<noteq> 0 \<Longrightarrow> \<exists>y. td__vec_alloc_loop capacity a = Some y"
proof (induction "unat capacity - unat a" arbitrary: a rule: less_induct)
  case less
  show ?case
  proof (cases "a < capacity")
    case False
    then show ?thesis by (simp add: loop_stop not_less)
  next
    case True
    then have lt: "unat a < unat capacity" by (simp add: word_less_nat_alt)
    with less(2) have dbl: "unat (a * 2) = 2 * unat a" by (intro unat_double) simp
    from less(3) have pos: "0 < unat a" by (simp add: unat_gt_0)
    with dbl have "a * 2 \<noteq> 0" by (metis mult_is_0 not_less_zero unat_0 zero_neq_numeral)
    moreover have "unat capacity - unat (a * 2) < unat capacity - unat a"
      using dbl pos lt by simp
    ultimately have "\<exists>y. td__vec_alloc_loop capacity (a * 2) = Some y"
      using less(1) [of "a * 2"] less(2) by simp
    then show ?thesis by (simp add: loop_step [OF True])
  qed
qed

lemma loop_power_aux:
  "td__vec_alloc_loop capacity a = Some y \<Longrightarrow>
     (capacity \<le> y \<and> (a = 0 \<longrightarrow> y = 0)) \<and>
     (\<forall>j. unat a = 1024 * 2 ^ j \<longrightarrow> (\<exists>k\<ge>j. unat y = 1024 * 2 ^ k))"
proof (induction rule: loop_induct)
  case (step loop capacity a y)
  show ?case
  proof (cases "a < capacity")
    case False
    with step(2) show ?thesis by (auto simp: not_less)
  next
    case True
    with step(2) have rec: "loop capacity (a * 2) = Some y" by simp
    note ih = step(1) [OF rec]
    from ih True have "a \<noteq> 0 \<or> y = 0" by auto
    have pow: "\<exists>k\<ge>j. unat y = 1024 * 2 ^ k" if a: "unat a = 1024 * 2 ^ j" for j
    proof (cases "unat a < 2 ^ 63")
      case True
      then have "unat (a * 2) = 1024 * 2 ^ Suc j"
        using a by (simp add: unat_double)
      with ih obtain k where "k \<ge> Suc j" "unat y = 1024 * 2 ^ k" by blast
      then show ?thesis by (intro exI [of _ k]) simp
    next
      case False
      have "unat a < 2 ^ 64" using unsigned_less [of a] by simp
      with a have "(2::nat) ^ (j + 10) < 2 ^ 64" by (simp add: power_add mult.commute)
      then have "j + 10 < 64" by (simp only: power_strict_increasing_iff) 
      moreover from False a have "(2::nat) ^ 63 \<le> 2 ^ (j + 10)" by (simp add: power_add mult.commute)
      then have "63 \<le> j + 10" by (simp only: power_increasing_iff) 
      ultimately have "j = 53" by simp
      with a have "unat a = 2 ^ 63" by simp
      then have "unat (a * 2) = 0" by (simp add: unat_word_ariths)
      then have "a * 2 = 0" by (simp add: unat_eq_0)
      with ih have "capacity = 0" by auto
      with \<open>a < capacity\<close> show ?thesis by simp
    qed
    from ih True pow show ?thesis by auto
  qed
qed

lemma loop_power:
  "td__vec_alloc_loop capacity a = Some y \<Longrightarrow> unat a = 1024 * 2 ^ j \<Longrightarrow>
     \<exists>k\<ge>j. unat y = 1024 * 2 ^ k"
  using loop_power_aux by blast

lemma vec_alloc_keep:
  "capacity \<le> vec_alloc v \<Longrightarrow> td__vec_alloc R esz (h, v) capacity = Returns (h, v)"
  by (simp add: td__vec_alloc_def leD)

lemma vec_alloc_Returns:
  assumes "td__vec_alloc R esz (h, v) capacity = Returns (h', v')"
  shows "(capacity \<le> vec_alloc v \<and> h' = h \<and> v' = v) \<or>
     (vec_alloc v < capacity \<and>
      (\<exists>a p. p \<noteq> NULL \<and>
         td__vec_alloc_loop capacity (if vec_alloc v = 0 then TD_VECINITSZ else vec_alloc v)
           = Some a \<and>
         R h (vec_data v) (a * esz) = (h', p) \<and>
         v' = v\<lparr>vec_alloc := a, vec_data := p\<rparr>))"
  using assms
  by (auto simp: td__vec_alloc_def not_less split: if_splits option.splits prod.splits)

lemma vec_alloc_covers:
  assumes "td__vec_alloc R esz (h, v) capacity = Returns (h', v')"
  shows "capacity \<le> vec_alloc v' \<and> vec_size v' = vec_size v"
  using vec_alloc_Returns [OF assms] loop_covers by auto

lemma cells_store_list:
  assumes "store_list h (ptr_add p n) xs = Some h'" "off p = 0"
  shows "unat n + length xs \<le> length (cells h p) \<and>
         cells h' p = take (unat n) (cells h p) @ xs @ drop (unat n + length xs) (cells h p)"
  using assms
  by (auto simp: store_list_def cells_def ptr_add_def split: if_splits option.splits)

lemma store_list_fits:
  assumes "unat n + length xs \<le> length (cells h p)" "xs \<noteq> []" "off p = 0"
  shows "\<exists>h'. store_list h (ptr_add p n) xs = Some h'"
  using assms
  by (auto simp: store_list_def cells_def ptr_add_def split: if_splits option.splits)

lemma take_eq_le:
  assumes "take k xs = take k ys" "m \<le> k"
  shows "take m xs = take m ys"
proof -
  have "take m xs = take m (take k xs)" using assms(2) by (simp add: min_def)
  also have "\<dots> = take m (take k ys)" by (simp only: assms(1))
  also have "\<dots> = take m ys" using assms(2) by (simp add: min_def)
  finally show ?thesis .
qed

lemma realloc_okD:
  assumes "realloc_ok esz R" "R h p n = (h', p')" "p' \<noteq> NULL"
  shows "off p' = 0" "length (cells h' p') = unat n div unat esz"
    "m \<le> length (cells h p) \<Longrightarrow> m \<le> length (cells h' p') \<Longrightarrow>
       take m (cells h' p') = take m (cells h p)"
proof -
  note assms(1) [unfolded realloc_ok_def, THEN spec [where x = h], THEN spec [where x = p],
      THEN spec [where x = n]]
  with assms(2,3)
  have *: "blk p' \<noteq> 0 \<and> off p' = 0 \<and> length (cells h' p') = unat n div unat esz \<and>
            take (min (length (cells h p)) (length (cells h' p'))) (cells h' p')
              = take (min (length (cells h p)) (length (cells h' p'))) (cells h p)"
    by auto
  then show "off p' = 0" "length (cells h' p') = unat n div unat esz" by simp_all
  assume m: "m \<le> length (cells h p)" "m \<le> length (cells h' p')"
  let ?k = "min (length (cells h p)) (length (cells h' p'))"
  from * have eq: "take ?k (cells h' p') = take ?k (cells h p)" by blast
  from m have "m \<le> ?k" by simp
  with eq show "take m (cells h' p') = take m (cells h p)" by (rule take_eq_le)
qed

section \<open>Appending: contents and capacity\<close>

text \<open>
  What a returning \<^verbatim>\<open>td__vec_alloc\<close>, \<^verbatim>\<open>td_vec_append\<close> and \<^verbatim>\<open>td_vec_append_bulk\<close> leave
  behind, and when they are sure to return.
\<close>

lemma vec_ok_live: "vec_ok h v \<Longrightarrow> vec_live h v"
  by (auto simp: vec_ok_def vec_live_def word_le_nat_alt)

lemma vec_alloc_frame:
  assumes ok: "realloc_ok esz R" and live: "vec_live h v"
    and run: "td__vec_alloc R esz (h, v) capacity = Returns (h1, v1)"
  shows "off (vec_data v1) = 0" "length (cells h1 (vec_data v1)) < 2 ^ 64"
    "vec_size v1 = vec_size v" "capacity \<le> vec_alloc v1"
    "m \<le> unat (vec_size v) \<Longrightarrow> m \<le> length (cells h1 (vec_data v1)) \<Longrightarrow>
       take m (cells h1 (vec_data v1)) = take m (cells h (vec_data v))"
proof -
  from vec_alloc_covers [OF run]
  show "vec_size v1 = vec_size v" "capacity \<le> vec_alloc v1" by simp_all
  from vec_alloc_Returns [OF run]
  consider (keep) "h1 = h" "v1 = v"
    | (grow) a p where "p \<noteq> NULL" "R h (vec_data v) (a * esz) = (h1, p)"
        "v1 = v\<lparr>vec_alloc := a, vec_data := p\<rparr>"
    by blast
  then have "off (vec_data v1) = 0 \<and> length (cells h1 (vec_data v1)) < 2 ^ 64 \<and>
      (\<forall>m. m \<le> unat (vec_size v) \<longrightarrow> m \<le> length (cells h1 (vec_data v1)) \<longrightarrow>
        take m (cells h1 (vec_data v1)) = take m (cells h (vec_data v)))"
  proof cases
    case keep
    with live show ?thesis by (simp add: vec_live_def)
  next
    case grow
    note d = realloc_okD [OF ok grow(2) grow(1)]
    have "length (cells h1 p) \<le> unat (a * esz)"
      unfolding d(2) by (rule div_le_dividend)
    moreover have "unat (a * esz) < 2 ^ 64"
      using unsigned_less [of "a * esz"] by simp
    ultimately have "length (cells h1 p) < 2 ^ 64"
      by (rule le_less_trans)
    moreover have "take m (cells h1 p) = take m (cells h (vec_data v))"
      if "m \<le> unat (vec_size v)" "m \<le> length (cells h1 p)" for m
      using that live by (intro d(3)) (simp_all add: vec_live_def)
    ultimately show ?thesis
      using d(1) grow(3) by simp
  qed
  then show "off (vec_data v1) = 0" "length (cells h1 (vec_data v1)) < 2 ^ 64"
    "m \<le> unat (vec_size v) \<Longrightarrow> m \<le> length (cells h1 (vec_data v1)) \<Longrightarrow>
       take m (cells h1 (vec_data v1)) = take m (cells h (vec_data v))"
    by blast+
qed

lemma and_then_Returns:
  "and_then m f = Returns r \<longleftrightarrow> (\<exists>x. m = Returns x \<and> f x = Returns r)"
  by (cases m) simp_all

lemma append_Returns:
  assumes ok: "realloc_ok esz R" and live: "vec_live h v"
    and run: "td_vec_append R esz (h, v) x = Returns (h', v')"
  shows "vec_live h' v'" "unat (vec_size v') = unat (vec_size v) + 1"
    "vec_size v' \<le> vec_alloc v'" "vec_elems h' v' = vec_elems h v @ [x]"
proof -
  from run obtain h1 v1 where
    alloc: "td__vec_alloc R esz (h, v) (vec_size v + 1) = Returns (h1, v1)" and
    st: "store_list h1 (ptr_add (vec_data v1) (vec_size v1)) [x] = Some h'" and
    v': "v' = v1\<lparr>vec_size := vec_size v1 + 1\<rparr>"
    by (auto simp: td_vec_append_def and_then_Returns split: option.splits)
  note f = vec_alloc_frame [OF ok live alloc]
  let ?s = "unat (vec_size v)"
  from cells_store_list [OF st f(1)] f(3)
  have fit: "?s + 1 \<le> length (cells h1 (vec_data v1))"
    and new: "cells h' (vec_data v1)
      = take ?s (cells h1 (vec_data v1)) @ [x] @ drop (?s + 1) (cells h1 (vec_data v1))"
    by simp_all
  from fit f(2) have "?s + 1 < 2 ^ 64" by simp
  then have suc: "unat (vec_size v + 1) = ?s + 1"
    by (simp add: unat_word_ariths)
  from new fit have len: "length (cells h' (vec_data v1)) = length (cells h1 (vec_data v1))"
    by simp
  show "vec_live h' v'"
    using f(1,2,3) fit len suc by (simp add: vec_live_def v')
  show "unat (vec_size v') = ?s + 1"
    using suc f(3) by (simp add: v')
  show "vec_size v' \<le> vec_alloc v'"
    using f(3,4) by (simp add: v')
  have "take ?s (cells h1 (vec_data v1)) = take ?s (cells h (vec_data v))"
    using fit by (intro f(5)) simp_all
  moreover have "?s \<le> length (cells h (vec_data v))"
    using live by (simp add: vec_live_def)
  ultimately show "vec_elems h' v' = vec_elems h v @ [x]"
    using new fit suc f(3) by (simp add: vec_elems_def v')
qed

lemma each_Returns:
  assumes ok: "realloc_ok esz R"
  shows "vec_live h v \<Longrightarrow> td_vec_append_each R esz (h, v) xs = Returns (h', v') \<Longrightarrow>
    vec_live h' v' \<and> unat (vec_size v') = unat (vec_size v) + length xs \<and>
    vec_elems h' v' = vec_elems h v @ xs"
proof (induction xs arbitrary: h v)
  case Nil
  then show ?case by simp
next
  case (Cons x xs)
  from Cons.prems(2) obtain h1 v1 where
    one: "td_vec_append R esz (h, v) x = Returns (h1, v1)" and
    rest: "td_vec_append_each R esz (h1, v1) xs = Returns (h', v')"
    by (auto simp: and_then_Returns)
  note a = append_Returns [OF ok Cons.prems(1) one]
  from Cons.IH [OF a(1) rest] a(2,4) show ?case by simp
qed

lemma unat_count:
  assumes "esz \<noteq> (0::size_t)" "length xs * unat esz < 2 ^ 64"
  shows "unat (word_of_nat (length xs) :: size_t) = length xs"
    "unat ((word_of_nat (length xs) :: size_t) * esz) = length xs * unat esz"
proof -
  from assms(1) have "1 \<le> unat esz" by (simp add: unat_gt_0 Suc_le_eq)
  then have "length xs * 1 \<le> length xs * unat esz" by (rule mult_le_mono2)
  then have "length xs \<le> length xs * unat esz" by (simp only: mult_1_right)
  from this assms(2) have "length xs < 2 ^ 64" by (rule le_less_trans)
  then show c: "unat (word_of_nat (length xs) :: size_t) = length xs"
    by (simp add: unat_of_nat)
  with assms(2) show "unat ((word_of_nat (length xs) :: size_t) * esz) = length xs * unat esz"
    by (simp add: unat_word_ariths)
qed

lemma bulk_Returns:
  assumes ok: "realloc_ok esz R" and vok: "vec_ok h v" and esz: "esz \<noteq> 0"
    and fits: "length xs * unat esz < 2 ^ 64"
    and cv: "count_value count = word_of_nat (length xs)"
    and rq: "size_plus (vec_size v) count = vec_size v + count_value count"
    and run: "td_vec_append_bulk R esz (h, v) xs count = Returns (h', v')"
  shows "vec_live h' v'" "unat (vec_size v') = unat (vec_size v) + length xs"
    "vec_elems h' v' = vec_elems h v @ xs"
proof -
  let ?c = "word_of_nat (length xs) :: size_t"
  let ?s = "unat (vec_size v)"
  note live = vec_ok_live [OF vok]
  note c = unat_count [OF esz fits]
  from run obtain h1 v1 where
    alloc: "td__vec_alloc R esz (h, v) (vec_size v + ?c) = Returns (h1, v1)" and
    mc: "memcpy esz h1 (ptr_add (vec_data v1) (vec_size v1)) xs (?c * esz) = Some h'" and
    v': "v' = v1\<lparr>vec_size := vec_size v1 + ?c\<rparr>"
    by (auto simp: td_vec_append_bulk_def and_then_Returns cv rq split: option.splits)
  have "vec_live h' v' \<and> unat (vec_size v') = ?s + length xs \<and>
    vec_elems h' v' = vec_elems h v @ xs"
  proof (cases "xs = []")
    case True
    with vok have "td__vec_alloc R esz (h, v) (vec_size v + ?c) = Returns (h, v)"
      by (simp add: vec_alloc_keep vec_ok_def)
    with alloc have "h1 = h" "v1 = v" by simp_all
    with True mc v' live show ?thesis
      by (simp add: memcpy_def vec_live_def vec_elems_def)
  next
    case False
    then have pos: "0 < length xs * unat esz"
      using esz by (simp add: unat_gt_0)
    with c(2) have "?c * esz \<noteq> 0"
      by (metis less_irrefl unat_0)
    moreover have "unat (?c * esz) mod unat esz = 0" "unat (?c * esz) div unat esz = length xs"
      using c(2) esz by (simp_all add: unat_gt_0)
    ultimately have st: "store_list h1 (ptr_add (vec_data v1) (vec_size v1)) xs = Some h'"
      using mc esz by (simp add: memcpy_def)
    note f = vec_alloc_frame [OF ok live alloc]
    from cells_store_list [OF st f(1)] f(3)
    have fit: "?s + length xs \<le> length (cells h1 (vec_data v1))"
      and new: "cells h' (vec_data v1)
        = take ?s (cells h1 (vec_data v1)) @ xs @ drop (?s + length xs) (cells h1 (vec_data v1))"
      by simp_all
    from fit f(2) have "?s + length xs < 2 ^ 64" by simp
    then have sum: "unat (vec_size v + ?c) = ?s + length xs"
      using c(1) by (simp add: unat_word_ariths)
    from new fit have len: "length (cells h' (vec_data v1)) = length (cells h1 (vec_data v1))"
      by simp
    have "take ?s (cells h1 (vec_data v1)) = take ?s (cells h (vec_data v))"
      using fit by (intro f(5)) simp_all
    moreover have "?s \<le> length (cells h (vec_data v))"
      using live by (simp add: vec_live_def)
    ultimately have "vec_elems h' v' = vec_elems h v @ xs"
      using new fit sum f(3) by (simp add: vec_elems_def v')
    moreover have "vec_live h' v'"
      using f(1,2,3) fit len sum by (simp add: vec_live_def v')
    ultimately show ?thesis
      using sum f(3) by (simp add: v')
  qed
  then show "vec_live h' v'" "unat (vec_size v') = unat (vec_size v) + length xs"
    "vec_elems h' v' = vec_elems h v @ xs"
    by simp_all
qed

lemma bound_half:
  assumes "esz \<noteq> (0::size_t)" "max 1024 (2 * n) * unat esz < 2 ^ 64"
  shows "n < 2 ^ 63"
proof -
  from assms(1) have "1 \<le> unat esz" by (simp add: unat_gt_0 Suc_le_eq)
  then have "max 1024 (2 * n) * 1 \<le> max 1024 (2 * n) * unat esz" by (rule mult_le_mono2)
  then have "max 1024 (2 * n) \<le> max 1024 (2 * n) * unat esz" by (simp only: mult_1_right)
  from this assms(2) have "max 1024 (2 * n) < 2 ^ 64" by (rule le_less_trans)
  then show ?thesis by simp
qed

lemma vec_alloc_total:
  assumes ok: "realloc_ok esz R" and nf: "never_fails R" and vok: "vec_ok h v"
    and esz: "esz \<noteq> 0"
    and bound: "max 1024 (2 * unat capacity) * unat esz < 2 ^ 64"
  shows "\<exists>h1 v1. td__vec_alloc R esz (h, v) capacity = Returns (h1, v1) \<and> vec_ok h1 v1 \<and>
    capacity \<le> vec_alloc v1"
proof (cases "capacity \<le> vec_alloc v")
  case True
  with vok show ?thesis by (simp add: vec_alloc_keep)
next
  case False
  then have gt: "vec_alloc v < capacity" by simp
  let ?a0 = "if vec_alloc v = 0 then TD_VECINITSZ else vec_alloc v"
  have a0: "?a0 \<noteq> 0" by (simp add: TD_VECINITSZ_def)
  have cap: "unat capacity \<le> 2 ^ 63"
    using bound_half [OF esz bound] by simp
  from loop_terminates [OF cap a0] obtain a where
    loop: "td__vec_alloc_loop capacity ?a0 = Some a" by blast
  from loop_doubles [OF loop cap] obtain k where
    k: "unat a = unat ?a0 * 2 ^ k" "\<forall>i<k. unat ?a0 * 2 ^ i < unat capacity" by blast
  have small: "unat a \<le> max 1024 (2 * unat capacity)"
  proof (cases k)
    case 0
    with k(1) gt show ?thesis
      by (auto simp: TD_VECINITSZ_def word_less_nat_alt)
  next
    case (Suc k')
    with k(2) have "unat ?a0 * 2 ^ k' < unat capacity" by simp
    with k(1) Suc show ?thesis by simp
  qed
  then have "unat a * unat esz \<le> max 1024 (2 * unat capacity) * unat esz"
    by (rule mult_le_mono1)
  from this bound have "unat a * unat esz < 2 ^ 64" by (rule le_less_trans)
  then have bytes: "unat (a * esz) = unat a * unat esz"
    by (simp add: unat_word_ariths)
  obtain h1 p where r: "R h (vec_data v) (a * esz) = (h1, p)" by (cases "R h (vec_data v) (a * esz)")
  with nf have p: "p \<noteq> NULL" unfolding never_fails_def by (metis snd_conv)
  note d = realloc_okD [OF ok r p]
  have len: "length (cells h1 p) = unat a"
    using d(2) bytes esz by (simp add: unat_gt_0)
  have run: "td__vec_alloc R esz (h, v) capacity
      = Returns (h1, v\<lparr>vec_alloc := a, vec_data := p\<rparr>)"
    using gt loop r p by (simp add: td__vec_alloc_def)
  from loop_covers [OF loop] have "capacity \<le> a" by simp
  moreover from this gt vok have "vec_size v \<le> a"
    by (auto simp: vec_ok_def word_le_nat_alt word_less_nat_alt)
  moreover have "unat a < 2 ^ 64" using unsigned_less [of a] by simp
  ultimately have "vec_ok h1 (v\<lparr>vec_alloc := a, vec_data := p\<rparr>)"
    using d(1) len by (simp add: vec_ok_def)
  with run \<open>capacity \<le> a\<close> show ?thesis by simp
qed

lemma store_in_vec:
  assumes vok: "vec_ok h v" and fit: "unat (vec_size v) + length xs \<le> unat (vec_alloc v)"
    and ne: "xs \<noteq> []"
  shows "\<exists>h'. store_list h (ptr_add (vec_data v) (vec_size v)) xs = Some h' \<and>
    vec_ok h' (v\<lparr>vec_size := vec_size v + word_of_nat (length xs)\<rparr>) \<and>
    unat (vec_size v + word_of_nat (length xs)) = unat (vec_size v) + length xs \<and>
    cells h' (vec_data v) = take (unat (vec_size v)) (cells h (vec_data v)) @ xs @
      drop (unat (vec_size v) + length xs) (cells h (vec_data v))"
proof -
  let ?s = "unat (vec_size v)"
  from vok have off: "off (vec_data v) = 0" and
    room: "unat (vec_alloc v) \<le> length (cells h (vec_data v))" and
    space: "length (cells h (vec_data v)) < 2 ^ 64"
    by (simp_all add: vec_ok_def)
  from fit room have "?s + length xs \<le> length (cells h (vec_data v))" by simp
  from store_list_fits [OF this ne off] obtain h' where
    st: "store_list h (ptr_add (vec_data v) (vec_size v)) xs = Some h'" by blast
  note c = cells_store_list [OF st off]
  have "unat (vec_alloc v) < 2 ^ 64" using unsigned_less [of "vec_alloc v"] by simp
  with fit have lt: "?s + length xs < 2 ^ 64" by simp
  then have "length xs < 2 ^ 64" by simp
  then have "unat (word_of_nat (length xs) :: size_t) = length xs"
    by (simp add: unat_of_nat)
  with lt have sum: "unat (vec_size v + word_of_nat (length xs)) = ?s + length xs"
    by (simp add: unat_word_ariths)
  from c have len: "length (cells h' (vec_data v)) = length (cells h (vec_data v))"
    by simp
  have "vec_ok h' (v\<lparr>vec_size := vec_size v + word_of_nat (length xs)\<rparr>)"
    using off room space fit sum len by (simp add: vec_ok_def word_le_nat_alt)
  with st sum c show ?thesis by simp
qed

lemma append_in_place:
  assumes vok: "vec_ok h v" and lt: "vec_size v < vec_alloc v"
  shows "\<exists>h'. td_vec_append R esz (h, v) x = Returns (h', v\<lparr>vec_size := vec_size v + 1\<rparr>) \<and>
    vec_ok h' (v\<lparr>vec_size := vec_size v + 1\<rparr>) \<and>
    unat (vec_size v + 1) = unat (vec_size v) + 1 \<and>
    vec_elems h' (v\<lparr>vec_size := vec_size v + 1\<rparr>) = vec_elems h v @ [x]"
proof -
  let ?s = "unat (vec_size v)"
  from lt have "vec_size v + 1 \<le> vec_alloc v" by (rule inc_le)
  then have keep: "td__vec_alloc R esz (h, v) (vec_size v + 1) = Returns (h, v)"
    by (rule vec_alloc_keep)
  from lt have "?s + length [x] \<le> unat (vec_alloc v)"
    by (simp add: word_less_nat_alt)
  from store_in_vec [OF vok this] obtain h' where
    st: "store_list h (ptr_add (vec_data v) (vec_size v)) [x] = Some h'" and
    vok': "vec_ok h' (v\<lparr>vec_size := vec_size v + 1\<rparr>)" and
    sum: "unat (vec_size v + 1) = ?s + 1" and
    new: "cells h' (vec_data v) = take ?s (cells h (vec_data v)) @ [x] @
      drop (?s + 1) (cells h (vec_data v))"
    by auto
  have run: "td_vec_append R esz (h, v) x = Returns (h', v\<lparr>vec_size := vec_size v + 1\<rparr>)"
    using keep st by (simp add: td_vec_append_def)
  have "?s \<le> length (cells h (vec_data v))"
    using vec_ok_live [OF vok] by (simp add: vec_live_def)
  then have "vec_elems h' (v\<lparr>vec_size := vec_size v + 1\<rparr>) = vec_elems h v @ [x]"
    using new sum by (simp add: vec_elems_def)
  with run vok' sum show ?thesis by blast
qed

lemma each_in_place:
  "vec_ok h v \<Longrightarrow> unat (vec_size v) + length xs \<le> unat (vec_alloc v) \<Longrightarrow>
   \<exists>h' v'. td_vec_append_each R esz (h, v) xs = Returns (h', v') \<and> vec_ok h' v' \<and>
     vec_data v' = vec_data v \<and> vec_alloc v' = vec_alloc v \<and>
     unat (vec_size v') = unat (vec_size v) + length xs \<and>
     vec_elems h' v' = vec_elems h v @ xs"
proof (induction xs arbitrary: h v)
  case Nil
  then show ?case by simp
next
  case (Cons x xs)
  from Cons.prems(2) have lt: "vec_size v < vec_alloc v"
    by (simp add: word_less_nat_alt)
  from append_in_place [OF Cons.prems(1) lt, of R esz x] obtain h1 where
    one: "td_vec_append R esz (h, v) x = Returns (h1, v\<lparr>vec_size := vec_size v + 1\<rparr>)" and
    vok: "vec_ok h1 (v\<lparr>vec_size := vec_size v + 1\<rparr>)" and
    sum: "unat (vec_size v + 1) = unat (vec_size v) + 1" and
    el: "vec_elems h1 (v\<lparr>vec_size := vec_size v + 1\<rparr>) = vec_elems h v @ [x]"
    by blast
  from Cons.prems(2) sum
  have "unat (vec_size (v\<lparr>vec_size := vec_size v + 1\<rparr>)) + length xs
      \<le> unat (vec_alloc (v\<lparr>vec_size := vec_size v + 1\<rparr>))"
    by simp
  from Cons.IH [OF vok this] one sum el show ?case
    by auto
qed

lemma unat_succ_bound: "unat (s::size_t) + 1 < 2 ^ 64 \<Longrightarrow> unat (s + 1) = unat s + 1"
  by (simp add: unat_word_ariths)

lemma max_mono_bound:
  assumes "m \<le> (n::nat)" "max 1024 (2 * n) * e < b"
  shows "max 1024 (2 * m) * e < b"
proof -
  from assms(1) have "max 1024 (2 * m) \<le> max 1024 (2 * n)" by simp
  then have "max 1024 (2 * m) * e \<le> max 1024 (2 * n) * e" by (rule mult_le_mono1)
  from this assms(2) show ?thesis by (rule le_less_trans)
qed

lemma append_total:
  assumes ok: "realloc_ok esz R" and nf: "never_fails R" and vok: "vec_ok h v"
    and esz: "esz \<noteq> 0"
    and bound: "max 1024 (2 * (unat (vec_size v) + 1)) * unat esz < 2 ^ 64"
  shows "\<exists>h' v'. td_vec_append R esz (h, v) x = Returns (h', v') \<and> vec_ok h' v' \<and>
    unat (vec_size v') = unat (vec_size v) + 1"
proof -
  let ?s = "unat (vec_size v)"
  from bound_half [OF esz bound] have "?s + 1 < 2 ^ 64" by simp
  then have suc: "unat (vec_size v + 1) = ?s + 1" by (rule unat_succ_bound)
  then have le: "vec_size v \<le> vec_size v + 1" by (simp add: word_le_nat_alt)
  from bound suc have "max 1024 (2 * unat (vec_size v + 1)) * unat esz < 2 ^ 64" by simp
  from vec_alloc_total [OF ok nf vok esz this] obtain h1 v1 where
    alloc: "td__vec_alloc R esz (h, v) (vec_size v + 1) = Returns (h1, v1)" and
    vok1: "vec_ok h1 v1" and cap: "vec_size v + 1 \<le> vec_alloc v1"
    by blast
  from vec_alloc_covers [OF alloc] have sz: "vec_size v1 = vec_size v" by simp
  from cap suc sz have "unat (vec_size v1) + length [x] \<le> unat (vec_alloc v1)"
    by (simp add: word_le_nat_alt)
  from store_in_vec [OF vok1 this] obtain h' where
    st: "store_list h1 (ptr_add (vec_data v1) (vec_size v1)) [x] = Some h'" and
    vok': "vec_ok h' (v1\<lparr>vec_size := vec_size v1 + 1\<rparr>)"
    by auto
  have "td_vec_append R esz (h, v) x = Returns (h', v1\<lparr>vec_size := vec_size v1 + 1\<rparr>)"
    using alloc st by (simp add: td_vec_append_def)
  with vok' suc sz show ?thesis by simp
qed

lemma each_total:
  assumes ok: "realloc_ok esz R" and nf: "never_fails R" and esz: "esz \<noteq> 0"
  shows "vec_ok h v \<Longrightarrow>
    max 1024 (2 * (unat (vec_size v) + length xs)) * unat esz < 2 ^ 64 \<Longrightarrow>
    \<exists>h' v'. td_vec_append_each R esz (h, v) xs = Returns (h', v') \<and> vec_ok h' v'"
proof (induction xs arbitrary: h v)
  case Nil
  then show ?case by simp
next
  case (Cons x xs)
  have "max 1024 (2 * (unat (vec_size v) + 1)) * unat esz < 2 ^ 64"
    by (rule max_mono_bound [OF _ Cons.prems(2)]) simp
  from append_total [OF ok nf Cons.prems(1) esz this, of x] obtain h1 v1 where
    one: "td_vec_append R esz (h, v) x = Returns (h1, v1)" and
    vok1: "vec_ok h1 v1" and sz: "unat (vec_size v1) = unat (vec_size v) + 1"
    by blast
  from Cons.prems(2) sz
  have "max 1024 (2 * (unat (vec_size v1) + length xs)) * unat esz < 2 ^ 64" by simp
  from Cons.IH [OF vok1 this] one show ?case by simp
qed

lemma bulk_total:
  assumes ok: "realloc_ok esz R" and nf: "never_fails R" and vok: "vec_ok h v"
    and esz: "esz \<noteq> 0"
    and bound: "max 1024 (2 * (unat (vec_size v) + length xs)) * unat esz < 2 ^ 64"
    and cv: "count_value count = word_of_nat (length xs)"
    and rq: "size_plus (vec_size v) count = vec_size v + count_value count"
  shows "\<exists>h' v'. td_vec_append_bulk R esz (h, v) xs count = Returns (h', v')"
proof -
  let ?s = "unat (vec_size v)"
  let ?c = "word_of_nat (length xs) :: size_t"
  have "length xs * unat esz \<le> max 1024 (2 * (?s + length xs)) * unat esz"
    by (rule mult_le_mono1) simp
  from this bound have fits: "length xs * unat esz < 2 ^ 64" by (rule le_less_trans)
  note c = unat_count [OF esz fits]
  from bound_half [OF esz bound] c(1) have sum: "unat (vec_size v + ?c) = ?s + length xs"
    by (simp add: unat_word_ariths)
  then have le: "vec_size v \<le> vec_size v + ?c" by (simp add: word_le_nat_alt)
  from bound sum have "max 1024 (2 * unat (vec_size v + ?c)) * unat esz < 2 ^ 64" by simp
  from vec_alloc_total [OF ok nf vok esz this] obtain h1 v1 where
    alloc: "td__vec_alloc R esz (h, v) (vec_size v + ?c) = Returns (h1, v1)" and
    vok1: "vec_ok h1 v1" and cap: "vec_size v + ?c \<le> vec_alloc v1"
    by blast
  from vec_alloc_covers [OF alloc] have sz: "vec_size v1 = vec_size v" by simp
  have "\<exists>h'. memcpy esz h1 (ptr_add (vec_data v1) (vec_size v1)) xs (?c * esz) = Some h'"
  proof (cases "xs = []")
    case True
    then show ?thesis by (simp add: memcpy_def)
  next
    case False
    from cap sum sz have "unat (vec_size v1) + length xs \<le> unat (vec_alloc v1)"
      by (simp add: word_le_nat_alt)
    from store_in_vec [OF vok1 this False] obtain h' where
      "store_list h1 (ptr_add (vec_data v1) (vec_size v1)) xs = Some h'" by blast
    moreover have "unat (?c * esz) mod unat esz = 0" "unat (?c * esz) div unat esz = length xs"
      using c(2) esz by (simp_all add: unat_gt_0)
    ultimately show ?thesis using esz by (simp add: memcpy_def)
  qed
  then obtain h' where "memcpy esz h1 (ptr_add (vec_data v1) (vec_size v1)) xs (?c * esz) = Some h'"
    by blast
  with alloc show ?thesis by (simp add: td_vec_append_bulk_def cv rq)
qed

lemma realloc_in_place_ok: "realloc_ok esz (realloc_in_place junk esz)"
  by (auto simp: realloc_ok_def realloc_in_place_def Let_def NULL_def cells_def min_def)

lemma realloc_in_place_never_fails: "never_fails (realloc_in_place junk esz)"
  by (simp add: never_fails_def realloc_in_place_def Let_def NULL_def)

section \<open>Bulk append, truncation\<close>

text \<open>
  With a count argument whose capacity request is the size plus its value (every
  operand of \<open>+\<close> is one), bulk append and the sequence of single appends agree: from a
  well-formed vector, with an allocator that keeps the promise of \<^verbatim>\<open>realloc\<close>, a non-zero
  element size and an item array that fits the address space, whenever both fall
  through they leave the same \<open>size\<close> and the same elements, the old ones followed by the
  items; both do fall through when the allocator never fails and the grown capacity
  fits the address space.
\<close>

lemma bulk_append_equiv:
  assumes ok: "realloc_ok esz R" and esz: "esz \<noteq> 0" and vok: "vec_ok h v"
    and fits: "length items * unat esz < 2 ^ 64"
    and cv: "count_value count = word_of_nat (length items)"
    and rq: "size_plus (vec_size v) count = vec_size v + count_value count"
  shows "(\<forall>h1 v1 h2 v2.
            td_vec_append_bulk R esz (h, v) items count = Returns (h1, v1) \<longrightarrow>
            td_vec_append_each R esz (h, v) items = Returns (h2, v2) \<longrightarrow>
              vec_size v1 = vec_size v2 \<and> vec_elems h1 v1 = vec_elems h2 v2 \<and>
              vec_elems h1 v1 = vec_elems h v @ items)
     \<and> (never_fails R \<and> max 1024 (2 * (unat (vec_size v) + length items)) * unat esz < 2 ^ 64 \<longrightarrow>
          (\<exists>h1 v1 h2 v2.
            td_vec_append_bulk R esz (h, v) items count = Returns (h1, v1) \<and>
            td_vec_append_each R esz (h, v) items = Returns (h2, v2)))"
proof (intro conjI allI impI)
  fix h1 v1 h2 v2
  assume bulk: "td_vec_append_bulk R esz (h, v) items count = Returns (h1, v1)"
    and each: "td_vec_append_each R esz (h, v) items = Returns (h2, v2)"
  note b = bulk_Returns [OF ok vok esz fits cv rq bulk]
  from each_Returns [OF ok vec_ok_live [OF vok] each]
  have e: "unat (vec_size v2) = unat (vec_size v) + length items"
    "vec_elems h2 v2 = vec_elems h v @ items"
    by simp_all
  from b(2) e(1) show "vec_size v1 = vec_size v2" by (simp add: word_unat_eq_iff)
  from b(3) e(2) show "vec_elems h1 v1 = vec_elems h2 v2" by simp
  from b(3) show "vec_elems h1 v1 = vec_elems h v @ items" .
next
  assume "never_fails R \<and> max 1024 (2 * (unat (vec_size v) + length items)) * unat esz < 2 ^ 64"
  then have nf: "never_fails R"
    and bound: "max 1024 (2 * (unat (vec_size v) + length items)) * unat esz < 2 ^ 64"
    by simp_all
  from bulk_total [OF ok nf vok esz bound cv rq] each_total [OF ok nf esz vok bound]
  show "\<exists>h1 v1 h2 v2.
            td_vec_append_bulk R esz (h, v) items count = Returns (h1, v1) \<and>
            td_vec_append_each R esz (h, v) items = Returns (h2, v2)"
    by blast
qed

lemma bulk_append_equiv_operand:
  assumes ok: "realloc_ok esz R" and esz: "esz \<noteq> 0" and vok: "vec_ok h v"
    and fits: "length items * unat esz < 2 ^ 64"
    and bulk: "td_vec_append_bulk R esz (h, v) items (Operand (word_of_nat (length items)))
                 = Returns (h1, v1)"
    and each: "td_vec_append_each R esz (h, v) items = Returns (h2, v2)"
  shows "vec_size v1 = vec_size v2 \<and> vec_elems h1 v1 = vec_elems h2 v2"
  using bulk_append_equiv [OF ok esz vok fits, of "Operand (word_of_nat (length items))"]
    bulk each
  by simp

lemma append_each_xyz:
  "td_vec_append_each (realloc_in_place CHR ''?'' 1) 1
      (heap_abc, \<lparr>vec_data = Ptr 1 0, vec_size = 3, vec_alloc = 5\<rparr>) ''xyz''
     = Returns (heap_abc(1 \<mapsto> ''a,bxyz'' @ replicate 4 CHR ''?''),
         \<lparr>vec_data = Ptr 1 0, vec_size = 6, vec_alloc = 10\<rparr>)"
  by (simp add: td_vec_append_def td__vec_alloc_def td__vec_alloc_loop.simps store_list_def
      ptr_add_def realloc_in_place_def cells_def NULL_def heap_abc_def Let_def)

lemma append_bulk_xyz_operand:
  "td_vec_append_bulk (realloc_in_place CHR ''?'' 1) 1
      (heap_abc, \<lparr>vec_data = Ptr 1 0, vec_size = 3, vec_alloc = 5\<rparr>) ''xyz'' (Operand 3)
     = Returns (heap_abc(1 \<mapsto> ''a,bxyz'' @ replicate 4 CHR ''?''),
         \<lparr>vec_data = Ptr 1 0, vec_size = 6, vec_alloc = 10\<rparr>)"
  by (simp add: td_vec_append_bulk_def td__vec_alloc_def td__vec_alloc_loop.simps memcpy_def
      store_list_def ptr_add_def realloc_in_place_def cells_def NULL_def heap_abc_def Let_def)

lemma append_bulk_xyz_conditional:
  "td_vec_append_bulk (realloc_in_place CHR ''?'' 1) 1
      (heap_abc, \<lparr>vec_data = Ptr 1 0, vec_size = 3, vec_alloc = 5\<rparr>) ''xyz''
      (Conditional 1 (Operand 3) (Operand 0))
     = Undefined"
  by (simp add: td_vec_append_bulk_def td__vec_alloc_def memcpy_def store_list_def ptr_add_def
      heap_abc_def)

text \<open>
  C7. The macro leaves \<open>count\<close> without parentheses in its capacity request,
  \<^verbatim>\<open>(vector)->size + count\<close>. Appending the three items \<^verbatim>\<open>xyz\<close> to a full-block vector of
  size 3 and capacity 5 with the count written \<^verbatim>\<open>1 ? 3 : 0\<close> (value 3) requests
  \<^verbatim>\<open>(3 + 1) ? 3 : 0\<close>, capacity 3: nothing grows and the copy of three elements runs
  past the block of 5. The three single appends grow the vector to capacity 10 and
  leave size 6 and the elements \<^verbatim>\<open>a,bxyz\<close>, and so does the bulk append with the count
  written \<^verbatim>\<open>3\<close>.
\<close>

theorem td_vec_append_bulk_unparenthesised_count:
  "count_value (Conditional 1 (Operand 3) (Operand 0)) = 3
   \<and> size_plus 3 (Conditional 1 (Operand 3) (Operand 0)) = 3
   \<and> vec_ok heap_abc \<lparr>vec_data = Ptr 1 0, vec_size = 3, vec_alloc = 5\<rparr>
   \<and> td_vec_append_bulk (realloc_in_place CHR ''?'' 1) 1
        (heap_abc, \<lparr>vec_data = Ptr 1 0, vec_size = 3, vec_alloc = 5\<rparr>) ''xyz''
        (Conditional 1 (Operand 3) (Operand 0))
       = Undefined
   \<and> td_vec_append_each (realloc_in_place CHR ''?'' 1) 1
        (heap_abc, \<lparr>vec_data = Ptr 1 0, vec_size = 3, vec_alloc = 5\<rparr>) ''xyz''
       = Returns (heap_abc(1 \<mapsto> ''a,bxyz'' @ replicate 4 CHR ''?''),
           \<lparr>vec_data = Ptr 1 0, vec_size = 6, vec_alloc = 10\<rparr>)
   \<and> td_vec_append_bulk (realloc_in_place CHR ''?'' 1) 1
        (heap_abc, \<lparr>vec_data = Ptr 1 0, vec_size = 3, vec_alloc = 5\<rparr>) ''xyz'' (Operand 3)
       = Returns (heap_abc(1 \<mapsto> ''a,bxyz'' @ replicate 4 CHR ''?''),
           \<lparr>vec_data = Ptr 1 0, vec_size = 6, vec_alloc = 10\<rparr>)
   \<and> vec_elems (heap_abc(1 \<mapsto> ''a,bxyz'' @ replicate 4 CHR ''?''))
        \<lparr>vec_data = Ptr 1 0, vec_size = 6, vec_alloc = 10\<rparr> = ''a,bxyz''"
  using append_each_xyz append_bulk_xyz_operand append_bulk_xyz_conditional
  by (simp add: vec_ok_def vec_elems_def cells_def heap_abc_def)

text \<open>
  C9. On a well-formed vector, truncating by \<open>m \<le> size\<close> changes the size field only:
  the data pointer, the capacity and the stored elements stay, the live elements are
  the old ones without the last \<open>m\<close>. Appending \<open>m\<close> items afterwards falls through under
  every allocator, with the old data pointer, capacity and size, and leaves the
  untouched prefix followed by the new items.
\<close>

theorem td_vec_truncate_append:
  assumes vok: "vec_ok h v" and m: "m \<le> vec_size v" and len: "length xs = unat m"
  shows "vec_data (td_vec_truncate v m) = vec_data v
     \<and> vec_alloc (td_vec_truncate v m) = vec_alloc v
     \<and> vec_size (td_vec_truncate v m) = vec_size v - m
     \<and> vec_elems h (td_vec_truncate v m) = take (unat (vec_size v) - unat m) (vec_elems h v)
     \<and> (\<exists>h' v'. td_vec_append_each R esz (h, td_vec_truncate v m) xs = Returns (h', v')
          \<and> vec_data v' = vec_data v \<and> vec_alloc v' = vec_alloc v \<and> vec_size v' = vec_size v
          \<and> vec_elems h' v' = take (unat (vec_size v) - unat m) (vec_elems h v) @ xs)"
proof -
  let ?t = "td_vec_truncate v m"
  from m have sub: "unat (vec_size v - m) = unat (vec_size v) - unat m"
    by (simp add: unat_sub)
  from m have le: "unat m \<le> unat (vec_size v)" by (simp add: word_le_nat_alt)
  have el: "vec_elems h ?t = take (unat (vec_size v) - unat m) (vec_elems h v)"
    by (simp add: vec_elems_def td_vec_truncate_def sub min_def)
  from vok have "unat (vec_size v) \<le> unat (vec_alloc v)"
    by (simp add: vec_ok_def word_le_nat_alt)
  with vok sub have vokt: "vec_ok h ?t"
    by (simp add: vec_ok_def td_vec_truncate_def word_le_nat_alt)
  from le len sub \<open>unat (vec_size v) \<le> unat (vec_alloc v)\<close>
  have fit: "unat (vec_size ?t) + length xs \<le> unat (vec_alloc ?t)"
    by (simp add: td_vec_truncate_def)
  from each_in_place [OF vokt fit, of R esz] obtain h' v' where
    run: "td_vec_append_each R esz (h, ?t) xs = Returns (h', v')" and
    same: "vec_data v' = vec_data ?t" "vec_alloc v' = vec_alloc ?t" and
    sz: "unat (vec_size v') = unat (vec_size ?t) + length xs" and
    els: "vec_elems h' v' = vec_elems h ?t @ xs"
    by blast
  from sz le len sub have "vec_size v' = vec_size v"
    by (simp add: word_unat_eq_iff td_vec_truncate_def)
  with run same els el show ?thesis
    by (simp add: td_vec_truncate_def)
qed

theorem td_vec_truncate_append_witness:
  "vec_ok heap_abc \<lparr>vec_data = Ptr 1 0, vec_size = 5, vec_alloc = 5\<rparr>
   \<and> (2::size_t) \<le> vec_size \<lparr>vec_data = Ptr 1 0, vec_size = 5, vec_alloc = 5\<rparr>
   \<and> length ''XY'' = unat (2::size_t)
   \<and> (\<exists>h' v'. td_vec_append_each realloc_fails 1
          (heap_abc, td_vec_truncate \<lparr>vec_data = Ptr 1 0, vec_size = 5, vec_alloc = 5\<rparr> 2) ''XY''
          = Returns (h', v')
        \<and> vec_size v' = 5 \<and> vec_alloc v' = 5 \<and> vec_elems h' v' = ''a,bXY'')"
proof -
  let ?v = "\<lparr>vec_data = Ptr 1 0, vec_size = 5, vec_alloc = 5\<rparr>"
  have vok: "vec_ok heap_abc ?v" by (simp add: vec_ok_def cells_def heap_abc_def)
  have m: "(2::size_t) \<le> vec_size ?v" by simp
  have len: "length ''XY'' = unat (2::size_t)" by simp
  have old: "take (unat (vec_size ?v) - unat (2::size_t)) (vec_elems heap_abc ?v) = ''a,b''"
    by (simp add: vec_elems_def cells_def heap_abc_def)
  from td_vec_truncate_append [OF vok m len, of realloc_fails 1] obtain h' v' where
    run: "td_vec_append_each realloc_fails 1 (heap_abc, td_vec_truncate ?v 2) ''XY''
          = Returns (h', v')" and
    same: "vec_size v' = vec_size ?v" "vec_alloc v' = vec_alloc ?v" and
    els: "vec_elems h' v'
          = take (unat (vec_size ?v) - unat (2::size_t)) (vec_elems heap_abc ?v) @ ''XY''"
    by blast
  from same els old have "vec_size v' = 5" "vec_alloc v' = 5" "vec_elems h' v' = ''a,bXY''"
    by simp_all
  with run have "\<exists>h' v'. td_vec_append_each realloc_fails 1 (heap_abc, td_vec_truncate ?v 2) ''XY''
          = Returns (h', v')
        \<and> vec_size v' = 5 \<and> vec_alloc v' = 5 \<and> vec_elems h' v' = ''a,bXY''"
    by blast
  with vok m len show ?thesis by blast
qed

section \<open>Capacity after appends\<close>

lemma and_then_assoc:
  "and_then (and_then m f) g = and_then m (\<lambda>x. and_then (f x) g)"
  by (cases m) simp_all

lemma each_append:
  "td_vec_append_each R esz s (xs @ ys)
     = and_then (td_vec_append_each R esz s xs) (\<lambda>s'. td_vec_append_each R esz s' ys)"
  by (induction xs arbitrary: s) (simp_all add: and_then_assoc)

lemma append_capacity:
  assumes run: "td_vec_append R esz (h, v) x = Returns (h', v')"
    and pow: "vec_alloc v = 0 \<or> (\<exists>k. unat (vec_alloc v) = 1024 * 2 ^ k)"
    and nowrap: "unat (vec_size v) + 1 < 2 ^ 64"
  shows "unat (vec_size v') = unat (vec_size v) + 1" "vec_size v' \<le> vec_alloc v'"
    "\<exists>k. unat (vec_alloc v') = 1024 * 2 ^ k"
proof -
  from run obtain h1 v1 where
    alloc: "td__vec_alloc R esz (h, v) (vec_size v + 1) = Returns (h1, v1)" and
    v': "v' = v1\<lparr>vec_size := vec_size v1 + 1\<rparr>"
    by (auto simp: td_vec_append_def and_then_Returns split: option.splits)
  note suc = unat_succ_bound [OF nowrap]
  from vec_alloc_covers [OF alloc]
  have cap: "vec_size v + 1 \<le> vec_alloc v1" and sz: "vec_size v1 = vec_size v" by simp_all
  from suc sz show "unat (vec_size v') = unat (vec_size v) + 1" by (simp add: v')
  from cap sz show "vec_size v' \<le> vec_alloc v'" by (simp add: v')
  from vec_alloc_Returns [OF alloc]
  consider (keep) "vec_size v + 1 \<le> vec_alloc v" "v1 = v"
    | (grow) a p where
        "td__vec_alloc_loop (vec_size v + 1)
           (if vec_alloc v = 0 then TD_VECINITSZ else vec_alloc v) = Some a"
        "v1 = v\<lparr>vec_alloc := a, vec_data := p\<rparr>"
    by blast
  then have "\<exists>k. unat (vec_alloc v1) = 1024 * 2 ^ k"
  proof cases
    case keep
    from keep(1) suc have "vec_alloc v \<noteq> 0" by (auto simp: word_le_nat_alt)
    with pow keep(2) show ?thesis by simp
  next
    case grow
    from pow have "\<exists>j. unat (if vec_alloc v = 0 then TD_VECINITSZ else vec_alloc v) = 1024 * 2 ^ j"
      by (auto simp: TD_VECINITSZ_def intro: exI [of _ 0])
    then obtain j where
      "unat (if vec_alloc v = 0 then TD_VECINITSZ else vec_alloc v) = 1024 * 2 ^ j" ..
    from loop_power [OF grow(1) this] grow(2) show ?thesis by auto
  qed
  then show "\<exists>k. unat (vec_alloc v') = 1024 * 2 ^ k" by (simp add: v')
qed

lemma each_capacity:
  "td_vec_append_each R esz (h, v) xs = Returns (h', v') \<Longrightarrow>
   vec_size v \<le> vec_alloc v \<Longrightarrow>
   vec_alloc v = 0 \<or> (\<exists>k. unat (vec_alloc v) = 1024 * 2 ^ k) \<Longrightarrow>
   unat (vec_size v) + length xs < 2 ^ 64 \<Longrightarrow>
   unat (vec_size v') = unat (vec_size v) + length xs \<and> vec_size v' \<le> vec_alloc v' \<and>
   (xs = [] \<longrightarrow> v' = v) \<and> (xs \<noteq> [] \<longrightarrow> (\<exists>k. unat (vec_alloc v') = 1024 * 2 ^ k))"
proof (induction xs arbitrary: h v)
  case Nil
  then show ?case by simp
next
  case (Cons x xs)
  from Cons.prems(1) obtain h1 v1 where
    one: "td_vec_append R esz (h, v) x = Returns (h1, v1)" and
    rest: "td_vec_append_each R esz (h1, v1) xs = Returns (h', v')"
    by (auto simp: and_then_Returns)
  from Cons.prems(4) have "unat (vec_size v) + 1 < 2 ^ 64" by simp
  note a = append_capacity [OF one Cons.prems(3) this]
  from a(1) Cons.prems(4) have "unat (vec_size v1) + length xs < 2 ^ 64" by simp
  from Cons.IH [OF rest a(2) disjI2 [OF a(3)] this] a(1,3) show ?case
    by (cases "xs = []") auto
qed

text \<open>
  C5. Whenever \<open>N\<close> appends to the all-zero vector fall through (\<open>N\<close> below \<open>2 ^ 64\<close>, the
  range of the size field), the size is \<open>N\<close>, the capacity is \<open>0\<close> if \<open>N = 0\<close> and
  otherwise \<^verbatim>\<open>TD_VECINITSZ\<close> times a power of two, the capacity is at least \<open>N\<close>, and after
  every step \<open>size \<le> alloc\<close>. The appends do fall through when the allocator keeps the
  promise of \<^verbatim>\<open>realloc\<close> and never fails and the grown capacity fits the address space.
\<close>

theorem td_vec_append_capacity:
  "(td_vec_append_each R esz (h, vec_zero) xs = Returns (h', v') \<and> length xs < 2 ^ 64 \<longrightarrow>
      unat (vec_size v') = length xs
    \<and> (xs = [] \<longrightarrow> vec_alloc v' = 0)
    \<and> (xs \<noteq> [] \<longrightarrow> (\<exists>k. unat (vec_alloc v') = unat TD_VECINITSZ * 2 ^ k))
    \<and> length xs \<le> unat (vec_alloc v')
    \<and> (\<forall>n\<le>length xs. \<exists>h1 v1.
          td_vec_append_each R esz (h, vec_zero) (take n xs) = Returns (h1, v1)
          \<and> unat (vec_size v1) = n \<and> vec_size v1 \<le> vec_alloc v1))
   \<and> (realloc_ok esz R \<and> never_fails R \<and> esz \<noteq> 0
        \<and> max 1024 (2 * length xs) * unat esz < 2 ^ 64 \<longrightarrow>
      (\<exists>h' v'. td_vec_append_each R esz (h, vec_zero) xs = Returns (h', v')))"
proof (intro conjI impI allI; (elim conjE)?)
  assume run: "td_vec_append_each R esz (h, vec_zero) xs = Returns (h', v')"
    and len: "length xs < 2 ^ 64"
  have z: "vec_size vec_zero \<le> vec_alloc vec_zero"
    "vec_alloc vec_zero = 0 \<or> (\<exists>k. unat (vec_alloc vec_zero) = 1024 * 2 ^ k)"
    "unat (vec_size vec_zero) = 0"
    by (simp_all add: vec_zero_def)
  from len z(3) have "unat (vec_size vec_zero) + length xs < 2 ^ 64" by simp
  from each_capacity [OF run z(1,2) this] z(3)
  have c: "unat (vec_size v') = length xs" "vec_size v' \<le> vec_alloc v'"
    "xs = [] \<Longrightarrow> v' = vec_zero" "xs \<noteq> [] \<Longrightarrow> \<exists>k. unat (vec_alloc v') = 1024 * 2 ^ k"
    by simp_all
  show "unat (vec_size v') = length xs" by (rule c(1))
  show "vec_alloc v' = 0" if "xs = []" using c(3) [OF that] by (simp add: vec_zero_def)
  show "\<exists>k. unat (vec_alloc v') = unat TD_VECINITSZ * 2 ^ k" if "xs \<noteq> []"
    using c(4) [OF that] by (simp add: TD_VECINITSZ_def)
  show "length xs \<le> unat (vec_alloc v')"
    using c(1,2) by (simp add: word_le_nat_alt)
  show "\<exists>h1 v1. td_vec_append_each R esz (h, vec_zero) (take n xs) = Returns (h1, v1)
          \<and> unat (vec_size v1) = n \<and> vec_size v1 \<le> vec_alloc v1" if n: "n \<le> length xs" for n
  proof -
    from run have "td_vec_append_each R esz (h, vec_zero) (take n xs @ drop n xs) = Returns (h', v')"
      by simp
    then obtain h1 v1 where
      pre: "td_vec_append_each R esz (h, vec_zero) (take n xs) = Returns (h1, v1)"
      unfolding each_append and_then_Returns by auto
    from len n z(3) have "unat (vec_size vec_zero) + length (take n xs) < 2 ^ 64" by simp
    from each_capacity [OF pre z(1,2) this] z(3) n pre show ?thesis by simp
  qed
next
  assume ok: "realloc_ok esz R" and nf: "never_fails R" and esz: "esz \<noteq> 0"
    and bound: "max 1024 (2 * length xs) * unat esz < 2 ^ 64"
  have vok: "vec_ok h vec_zero"
    by (simp add: vec_ok_def vec_zero_def NULL_def cells_def)
  from bound have "max 1024 (2 * (unat (vec_size vec_zero) + length xs)) * unat esz < 2 ^ 64"
    by (simp add: vec_zero_def)
  from each_total [OF ok nf esz vok this]
  show "\<exists>h' v'. td_vec_append_each R esz (h, vec_zero) xs = Returns (h', v')" by blast
qed

theorem td_vec_append_capacity_witness:
  "length ''abc'' < 2 ^ 64
   \<and> realloc_ok 1 (realloc_in_place CHR ''?'' 1)
   \<and> never_fails (realloc_in_place CHR ''?'' 1)
   \<and> (1::size_t) \<noteq> 0
   \<and> max 1024 (2 * length ''abc'') * unat (1::size_t) < 2 ^ 64
   \<and> (\<exists>h' v' k. td_vec_append_each (realloc_in_place CHR ''?'' 1) 1 (heap_empty, vec_zero) ''abc''
          = Returns (h', v')
        \<and> unat (vec_size v') = 3 \<and> unat (vec_alloc v') = unat TD_VECINITSZ * 2 ^ k
        \<and> 3 \<le> unat (vec_alloc v'))"
proof -
  let ?R = "realloc_in_place CHR ''?'' 1 :: char allocator"
  have len: "length ''abc'' < 2 ^ 64" by simp
  have ok: "realloc_ok 1 ?R" by (rule realloc_in_place_ok)
  have nf: "never_fails ?R" by (rule realloc_in_place_never_fails)
  have esz: "(1::size_t) \<noteq> 0" by simp
  have bound: "max 1024 (2 * length ''abc'') * unat (1::size_t) < 2 ^ 64" by simp
  note t = td_vec_append_capacity [of ?R 1 heap_empty "''abc''"]
  from t ok nf esz bound obtain h' v' where
    run: "td_vec_append_each ?R 1 (heap_empty, vec_zero) ''abc'' = Returns (h', v')"
    by blast
  from t [of h' v'] run len
  have "unat (vec_size v') = length ''abc''"
    "\<exists>k. unat (vec_alloc v') = unat TD_VECINITSZ * 2 ^ k"
    "length ''abc'' \<le> unat (vec_alloc v')"
    by blast+
  with run have "\<exists>h' v' k. td_vec_append_each ?R 1 (heap_empty, vec_zero) ''abc''
          = Returns (h', v')
        \<and> unat (vec_size v') = 3 \<and> unat (vec_alloc v') = unat TD_VECINITSZ * 2 ^ k
        \<and> 3 \<le> unat (vec_alloc v')"
    by auto
  with len ok nf esz bound show ?thesis by blast
qed

section \<open>Allocation failure\<close>

text \<open>
  C2 as stated: a failed reallocation leaves \<open>data\<close>, \<open>size\<close> and \<open>alloc\<close> as they were.
  Growing a full vector of capacity 5 to hold 6 elements with an allocator that is out
  of memory reaches \<^verbatim>\<open>TD_PANIC\<close> with \<open>alloc\<close> already doubled to 10 and \<open>data\<close>
  overwritten by the null result.
\<close>

theorem td__vec_alloc_out_of_memory_counterexample:
  "td__vec_alloc realloc_fails 1
      (heap_abc, \<lparr>vec_data = Ptr 1 0, vec_size = 5, vec_alloc = 5\<rparr>) 6
     = Panics (heap_abc, \<lparr>vec_data = NULL, vec_size = 5, vec_alloc = 10\<rparr>)
   \<and> \<lparr>vec_data = NULL, vec_size = 5, vec_alloc = 10\<rparr>
       \<noteq> \<lparr>vec_data = Ptr 1 0, vec_size = 5, vec_alloc = 5\<rparr>"
  by (simp add: td__vec_alloc_def td__vec_alloc_loop.simps realloc_fails_def NULL_def)

text \<open>
  C2, amended: when the reallocation inside \<^verbatim>\<open>td__vec_alloc\<close> returns null, the macro
  reaches \<^verbatim>\<open>TD_PANIC\<close> with \<open>size\<close> as before, \<open>data\<close> null and \<open>alloc\<close> already raised to
  the grown capacity, which is at least the requested one and larger than the old one.
\<close>

theorem td__vec_alloc_out_of_memory:
  assumes grow: "vec_alloc v < capacity"
    and loop: "td__vec_alloc_loop capacity
                 (if vec_alloc v = 0 then TD_VECINITSZ else vec_alloc v) = Some a"
    and fail: "R h (vec_data v) (a * esz) = (h', NULL)"
  shows "td__vec_alloc R esz (h, v) capacity = Panics (h', v\<lparr>vec_alloc := a, vec_data := NULL\<rparr>)
     \<and> vec_size (v\<lparr>vec_alloc := a, vec_data := NULL\<rparr>) = vec_size v
     \<and> vec_data (v\<lparr>vec_alloc := a, vec_data := NULL\<rparr>) = NULL
     \<and> vec_alloc (v\<lparr>vec_alloc := a, vec_data := NULL\<rparr>) = a
     \<and> vec_alloc v < a \<and> capacity \<le> a"
proof -
  from loop_covers [OF loop] have "capacity \<le> a" by simp
  with grow have "vec_alloc v < a" by simp
  with \<open>capacity \<le> a\<close> grow loop fail show ?thesis
    by (simp add: td__vec_alloc_def)
qed

theorem td__vec_alloc_out_of_memory_witness:
  "vec_alloc \<lparr>vec_data = Ptr 1 0, vec_size = 5, vec_alloc = 5\<rparr> < 6
   \<and> td__vec_alloc_loop 6 5 = Some 10
   \<and> realloc_fails heap_abc (Ptr 1 0) (10 * 1 :: size_t) = (heap_abc, NULL)
   \<and> td__vec_alloc realloc_fails 1
        (heap_abc, \<lparr>vec_data = Ptr 1 0, vec_size = 5, vec_alloc = 5\<rparr>) 6
       = Panics (heap_abc, \<lparr>vec_data = NULL, vec_size = 5, vec_alloc = 10\<rparr>)"
proof -
  let ?v = "\<lparr>vec_data = Ptr 1 0, vec_size = 5, vec_alloc = 5\<rparr>"
  have grow: "vec_alloc ?v < 6" by simp
  have loop: "td__vec_alloc_loop 6 (if vec_alloc ?v = 0 then TD_VECINITSZ else vec_alloc ?v)
      = Some 10"
    by (simp add: td__vec_alloc_loop.simps)
  have fail: "realloc_fails heap_abc (vec_data ?v) (10 * 1 :: size_t) = (heap_abc, NULL)"
    by (simp add: realloc_fails_def)
  from td__vec_alloc_out_of_memory
    [where R = realloc_fails and h = heap_abc and esz = 1, OF grow loop fail] grow loop fail
  show ?thesis
    by simp
qed

section \<open>Reading a file: the capacity\<close>

lemma scast_word_of_int:
  fixes x :: i32
  shows "(scast x :: size_t) = word_of_int (sint x)"
  by (rule scast_eq)

lemma unat_word_of_int: "unat (word_of_int k :: size_t) = nat (k mod 2 ^ 64)"
  by (simp only: unat_eq_nat_uint uint_word_of_int len_of_numeral_defs) simp

lemma scast_nonneg_bound:
  fixes x :: i32
  assumes "\<not> sint x < 0"
  shows "unat (scast x :: size_t) < 2 ^ 31"
proof -
  from assms have nn: "0 \<le> sint x" by simp
  have lt: "sint x < 2 ^ 31" using sint_lt [of x] by simp
  then have m: "sint x mod 2 ^ 64 = sint x" using nn by simp
  have "unat (scast x :: size_t) = nat (sint x mod 2 ^ 64)"
    unfolding scast_word_of_int by (rule unat_word_of_int)
  with m lt nn show ?thesis by simp
qed

lemma probe_bound:
  assumes "probe_size fp = Some L"
  shows "unat L < 2 ^ 31"
proof -
  from assms obtain x :: i32 where "\<not> sint x < 0" "L = scast x"
    by (auto simp: probe_size_def Let_def split: prod.splits if_splits)
  then show ?thesis using scast_nonneg_bound by blast
qed

lemma read_probe_None:
  "probe_size fp = None \<Longrightarrow> td_read_file_to_string R s fp = Returns (False, s, snd (fseek_end fp))"
  by (auto simp: probe_size_def td_read_file_to_string_def Let_def split: prod.splits if_splits)

lemma read_probe_Some:
  "probe_size fp = Some L \<Longrightarrow>
   td_read_file_to_string R s fp =
     and_then (td__vec_alloc R 1 s L)
       (\<lambda>(h, str).
          case fread h (vec_data str) L (rewind (snd (fseek_end fp))) of
            None \<Rightarrow> Undefined
          | Some (h', read, fp3) \<Rightarrow>
              if read \<noteq> L then Returns (False, (h', str), fp3)
              else Returns (True, (h', str\<lparr>vec_size := read\<rparr>), fp3))"
  by (auto simp: probe_size_def td_read_file_to_string_def Let_def split: prod.splits if_splits)

lemma vec_alloc_not_Loops:
  "unat capacity \<le> 2 ^ 63 \<Longrightarrow> td__vec_alloc R esz (h, v) capacity \<noteq> Loops"
proof -
  assume cap: "unat capacity \<le> 2 ^ 63"
  have "(if vec_alloc v = 0 then TD_VECINITSZ else vec_alloc v) \<noteq> 0"
    by (simp add: TD_VECINITSZ_def)
  from loop_terminates [OF cap this] show ?thesis
    by (auto simp: td__vec_alloc_def split: prod.splits if_splits)
qed

lemma and_then_Loops:
  "and_then m f = Loops \<longleftrightarrow> m = Loops \<or> (\<exists>x. m = Returns x \<and> f x = Loops)"
  by (cases m) simp_all

lemma read_hello:
  "probe_size (file_of ''hello'') = Some 5
   \<and> td_read_file_to_string (realloc_in_place CHR ''?'' 1) (heap_empty, vec_zero) (file_of ''hello'')
     = Returns (True,
         (heap_empty(1 \<mapsto> ''hello'' @ replicate 1019 CHR ''?''),
          \<lparr>vec_data = Ptr 1 0, vec_size = 5, vec_alloc = 1024\<rparr>),
         \<lparr>file_bytes = ''hello'', file_pos = 5, seek_ok = True, tell_ok = True, read_max = 5\<rparr>)"
proof -
  let ?R = "realloc_in_place CHR ''?'' 1 :: char allocator"
  have p: "probe_size (file_of ''hello'') = Some 5"
    by (simp add: probe_size_def file_of_def fseek_end_def ftell_def Let_def)
  have a: "td__vec_alloc ?R 1 (heap_empty, vec_zero) 5
      = Returns (heap_empty(1 \<mapsto> replicate 1024 CHR ''?''),
          \<lparr>vec_data = Ptr 1 0, vec_size = 0, vec_alloc = 1024\<rparr>)"
    by (simp add: td__vec_alloc_def td__vec_alloc_loop.simps TD_VECINITSZ_def vec_zero_def
        realloc_in_place_def NULL_def cells_def Let_def)
  have f: "fread (heap_empty(1 \<mapsto> replicate 1024 CHR ''?'')) (Ptr 1 0) 5
        (rewind (snd (fseek_end (file_of ''hello''))))
      = Some (heap_empty(1 \<mapsto> ''hello'' @ replicate 1019 CHR ''?''), 5,
          \<lparr>file_bytes = ''hello'', file_pos = 5, seek_ok = True, tell_ok = True, read_max = 5\<rparr>)"
    by (simp add: fread_def store_list_def file_of_def fseek_end_def rewind_def Let_def)
  have "td_read_file_to_string ?R (heap_empty, vec_zero) (file_of ''hello'')
     = Returns (True,
         (heap_empty(1 \<mapsto> ''hello'' @ replicate 1019 CHR ''?''),
          \<lparr>vec_data = Ptr 1 0, vec_size = 0, vec_alloc = 1024\<rparr>\<lparr>vec_size := 5\<rparr>),
         \<lparr>file_bytes = ''hello'', file_pos = 5, seek_ok = True, tell_ok = True, read_max = 5\<rparr>)"
    by (simp only: read_probe_Some [OF p] a and_then.simps prod.case vec_T.select_convs f
        option.case simp_thms if_False)
  with p show ?thesis by simp
qed

text \<open>
  C3 as stated: \<^verbatim>\<open>td_read_file_to_string\<close> grows the capacity to exactly the probed
  length. Reading a file of 5 bytes into the all-zero string probes the length 5 and
  leaves the capacity at \<^verbatim>\<open>TD_VECINITSZ\<close>, 1024.
\<close>

theorem td_read_file_to_string_capacity_counterexample:
  "probe_size (file_of ''hello'') = Some 5
   \<and> td_read_file_to_string (realloc_in_place CHR ''?'' 1) (heap_empty, vec_zero) (file_of ''hello'')
     = Returns (True,
         (heap_empty(1 \<mapsto> ''hello'' @ replicate 1019 CHR ''?''),
          \<lparr>vec_data = Ptr 1 0, vec_size = 5, vec_alloc = 1024\<rparr>),
         \<lparr>file_bytes = ''hello'', file_pos = 5, seek_ok = True, tell_ok = True, read_max = 5\<rparr>)
   \<and> vec_alloc \<lparr>vec_data = Ptr 1 0, vec_size = 5, vec_alloc = 1024\<rparr> \<noteq> 5"
  using read_hello by simp

text \<open>
  C3, amended: for every probed length \<open>L\<close>, \<^verbatim>\<open>td_read_file_to_string\<close> grows the string
  through \<^verbatim>\<open>td__vec_alloc\<close>, whose loop always ends here: whenever the function returns,
  the capacity is at least \<open>L\<close>; it is the old capacity when that was at least \<open>L\<close>, and
  otherwise the old capacity (\<^verbatim>\<open>TD_VECINITSZ\<close> for an unallocated string) doubled until it
  reaches \<open>L\<close>, each smaller doubling being below \<open>L\<close>.
\<close>

theorem td_read_file_to_string_capacity:
  assumes probe: "probe_size fp = Some L"
  shows "td_read_file_to_string R (h, str) fp \<noteq> Loops
     \<and> (\<forall>b h' str' fp'.
          td_read_file_to_string R (h, str) fp = Returns (b, (h', str'), fp') \<longrightarrow>
            L \<le> vec_alloc str'
          \<and> (L \<le> vec_alloc str \<longrightarrow> vec_alloc str' = vec_alloc str)
          \<and> (vec_alloc str < L \<longrightarrow>
               (\<exists>k. unat (vec_alloc str')
                       = unat (if vec_alloc str = 0 then TD_VECINITSZ else vec_alloc str) * 2 ^ k
                  \<and> (\<forall>i<k. unat (if vec_alloc str = 0 then TD_VECINITSZ else vec_alloc str) * 2 ^ i
                          < unat L))))"
proof (intro conjI allI impI)
  from probe_bound [OF probe] have cap: "unat L \<le> 2 ^ 63" by simp
  note unfold = read_probe_Some [OF probe, of R "(h, str)"]
  show "td_read_file_to_string R (h, str) fp \<noteq> Loops"
    unfolding unfold and_then_Loops using vec_alloc_not_Loops [OF cap, of R 1 h str]
    by (auto split: option.splits)
  fix b h' str' fp'
  assume "td_read_file_to_string R (h, str) fp = Returns (b, (h', str'), fp')"
  then have run: "and_then (td__vec_alloc R 1 (h, str) L)
       (\<lambda>(h, str).
          case fread h (vec_data str) L (rewind (snd (fseek_end fp))) of
            None \<Rightarrow> Undefined
          | Some (h', read, fp3) \<Rightarrow>
              if read \<noteq> L then Returns (False, (h', str), fp3)
              else Returns (True, (h', str\<lparr>vec_size := read\<rparr>), fp3))
      = Returns (b, (h', str'), fp')"
    by (simp only: unfold)
  then obtain h1 str1 where
    alloc: "td__vec_alloc R 1 (h, str) L = Returns (h1, str1)"
    by (cases "td__vec_alloc R 1 (h, str) L") auto
  from run have "str' = str1 \<or> str' = str1\<lparr>vec_size := L\<rparr>"
    unfolding alloc by (auto split: option.splits if_splits)
  then have same: "vec_alloc str' = vec_alloc str1" by auto
  from vec_alloc_covers [OF alloc] same show "L \<le> vec_alloc str'" by simp
  from vec_alloc_Returns [OF alloc]
  consider (keep) "L \<le> vec_alloc str" "str1 = str"
    | (grow) a p where "vec_alloc str < L"
        "td__vec_alloc_loop L (if vec_alloc str = 0 then TD_VECINITSZ else vec_alloc str) = Some a"
        "str1 = str\<lparr>vec_alloc := a, vec_data := p\<rparr>"
    by blast
  then have "(L \<le> vec_alloc str \<longrightarrow> vec_alloc str1 = vec_alloc str) \<and>
    (vec_alloc str < L \<longrightarrow>
       (\<exists>k. unat (vec_alloc str1)
               = unat (if vec_alloc str = 0 then TD_VECINITSZ else vec_alloc str) * 2 ^ k
          \<and> (\<forall>i<k. unat (if vec_alloc str = 0 then TD_VECINITSZ else vec_alloc str) * 2 ^ i
                  < unat L)))"
  proof cases
    case keep
    then show ?thesis by (simp add: leD)
  next
    case grow
    from grow(1) have "\<not> L \<le> vec_alloc str" by simp
    with loop_doubles [OF grow(2) cap] grow(3) show ?thesis by simp
  qed
  with same show "L \<le> vec_alloc str \<Longrightarrow> vec_alloc str' = vec_alloc str"
    and "vec_alloc str < L \<Longrightarrow>
       \<exists>k. unat (vec_alloc str')
               = unat (if vec_alloc str = 0 then TD_VECINITSZ else vec_alloc str) * 2 ^ k
          \<and> (\<forall>i<k. unat (if vec_alloc str = 0 then TD_VECINITSZ else vec_alloc str) * 2 ^ i
                  < unat L)"
    by simp_all
qed

theorem td_read_file_to_string_capacity_witness:
  "probe_size (file_of ''hello'') = Some 5
   \<and> td_read_file_to_string (realloc_in_place CHR ''?'' 1) (heap_empty, vec_zero) (file_of ''hello'')
       \<noteq> Loops
   \<and> (\<exists>b h' str' fp' k.
         td_read_file_to_string (realloc_in_place CHR ''?'' 1) (heap_empty, vec_zero)
           (file_of ''hello'') = Returns (b, (h', str'), fp')
       \<and> 5 \<le> vec_alloc str'
       \<and> unat (vec_alloc str') = unat TD_VECINITSZ * 2 ^ k)"
proof -
  let ?R = "realloc_in_place CHR ''?'' 1 :: char allocator"
  from read_hello have p: "probe_size (file_of ''hello'') = Some 5" by simp
  note t = td_read_file_to_string_capacity [OF p, of ?R heap_empty vec_zero]
  from read_hello obtain b h' str' fp' where
    run: "td_read_file_to_string ?R (heap_empty, vec_zero) (file_of ''hello'')
      = Returns (b, (h', str'), fp')"
    by blast
  from t run have "5 \<le> vec_alloc str'" by blast
  moreover have "vec_alloc vec_zero < 5" by (simp add: vec_zero_def)
  with t run have "\<exists>k. unat (vec_alloc str') = unat TD_VECINITSZ * 2 ^ k"
    by (auto simp: vec_zero_def)
  ultimately show ?thesis using t run p by blast
qed

section \<open>Reading a file: the result\<close>

lemma read_fails_seek:
  "\<not> seek_ok fp \<Longrightarrow> td_read_file_to_string R s fp = Returns (False, s, fp)"
  by (simp add: td_read_file_to_string_def fseek_end_def)

lemma read_fails_negative:
  "seek_ok fp \<Longrightarrow>
   sint (ucast (ftell (fp\<lparr>file_pos := length (file_bytes fp)\<rparr>)) :: i32) < 0 \<Longrightarrow>
   td_read_file_to_string R s fp = Returns (False, s, fp\<lparr>file_pos := length (file_bytes fp)\<rparr>)"
  by (simp add: td_read_file_to_string_def fseek_end_def Let_def)

lemma read_fails_short:
  assumes "probe_size fp = Some L" "td__vec_alloc R 1 s L = Returns (h1, str1)"
    "fread h1 (vec_data str1) L (rewind (snd (fseek_end fp))) = Some (h2, read, fp3)"
    "read \<noteq> L"
  shows "td_read_file_to_string R s fp = Returns (False, (h2, str1), fp3)"
  using assms(2-) by (simp add: read_probe_Some [OF assms(1)])

lemma ptr_add_0: "ptr_add p 0 = p"
  by (simp add: ptr_add_def)

lemma probe_small:
  assumes "seek_ok fp" "tell_ok fp" "length (file_bytes fp) < 2 ^ 31"
  shows "probe_size fp = Some (word_of_nat (length (file_bytes fp)))"
proof -
  let ?K = "length (file_bytes fp)"
  from assms(3) have "?K < 2 ^ 64" by simp
  then have "take_bit 64 ?K = ?K" by (simp add: take_bit_nat_eq_self)
  then have u: "(ucast (word_of_nat ?K :: long) :: i32) = word_of_nat ?K"
    by (simp add: unsigned_of_nat)
  from assms(3) have "int ?K < 2 ^ 31" by simp
  then have "signed_take_bit 31 (int ?K) = int ?K"
    by (simp add: signed_take_bit_int_eq_self_iff)
  then have s: "sint (word_of_nat ?K :: i32) = int ?K"
    by (simp add: signed_of_nat)
  have c: "(scast (word_of_nat ?K :: i32) :: size_t) = word_of_nat ?K"
    unfolding scast_word_of_int s by simp
  show ?thesis
    using assms(1,2) by (simp add: probe_size_def fseek_end_def ftell_def Let_def u s c)
qed

lemma read_small:
  assumes ok: "realloc_ok 1 R" and nf: "never_fails R" and vok: "vec_ok h str"
    and fp: "seek_ok fp" "tell_ok fp" "length (file_bytes fp) \<le> read_max fp"
    and small: "length (file_bytes fp) < 2 ^ 31"
  shows "\<exists>h' str' fp'. td_read_file_to_string R (h, str) fp = Returns (True, (h', str'), fp')
    \<and> unat (vec_size str') = length (file_bytes fp) \<and> vec_elems h' str' = file_bytes fp"
proof -
  let ?bs = "file_bytes fp"
  let ?L = "word_of_nat (length ?bs) :: size_t"
  let ?fp2 = "rewind (snd (fseek_end fp))"
  note p = probe_small [OF fp(1,2) small]
  from small have L: "unat ?L = length ?bs" by (simp add: unat_of_nat)
  have one: "(1::size_t) \<noteq> 0" by simp
  from small L have "max 1024 (2 * unat ?L) * unat (1::size_t) < 2 ^ 64" by simp
  from vec_alloc_total [OF ok nf vok one this] obtain h1 str1 where
    alloc: "td__vec_alloc R 1 (h, str) ?L = Returns (h1, str1)" and
    vok1: "vec_ok h1 str1" and cap: "?L \<le> vec_alloc str1"
    by blast
  have got: "take (min (unat ?L) (read_max ?fp2)) (drop (file_pos ?fp2) (file_bytes ?fp2)) = ?bs"
    using fp(1,3) L by (simp add: rewind_def fseek_end_def)
  show ?thesis
  proof (cases "?bs = []")
    case True
    then have "fread h1 (vec_data str1) ?L ?fp2 = Some (h1, 0, ?fp2)"
      using got by (simp add: fread_def)
    with True alloc show ?thesis
      by (simp add: read_probe_Some [OF p] vec_elems_def)
  next
    case False
    from vok1 have off: "off (vec_data str1) = 0" and
      room: "unat (vec_alloc str1) \<le> length (cells h1 (vec_data str1))"
      by (simp_all add: vec_ok_def)
    from cap L room have fit: "unat (0::size_t) + length ?bs \<le> length (cells h1 (vec_data str1))"
      by (simp add: word_le_nat_alt)
    from store_list_fits [OF fit False off] obtain h' where
      st: "store_list h1 (vec_data str1) ?bs = Some h'"
      by (auto simp: ptr_add_0)
    from cells_store_list [of h1 "vec_data str1" 0 ?bs h'] st off
    have new: "cells h' (vec_data str1) = ?bs @ drop (length ?bs) (cells h1 (vec_data str1))"
      by (simp add: ptr_add_0)
    have "fread h1 (vec_data str1) ?L ?fp2
        = Some (h', ?L, ?fp2\<lparr>file_pos := file_pos ?fp2 + length ?bs\<rparr>)"
      using got st False by (simp add: fread_def Let_def)
    with alloc L new show ?thesis
      by (simp add: read_probe_Some [OF p] vec_elems_def)
  qed
qed

lemma read_past_4_gib:
  "probe_size (file_of (replicate 4294967301 CHR ''x'')) = Some 5
   \<and> td_read_file_to_string (realloc_in_place CHR ''?'' 1) (heap_empty, vec_zero)
       (file_of (replicate 4294967301 CHR ''x''))
     = Returns (True,
         (heap_empty(1 \<mapsto> replicate 5 CHR ''x'' @ replicate 1019 CHR ''?''),
          \<lparr>vec_data = Ptr 1 0, vec_size = 5, vec_alloc = 1024\<rparr>),
         \<lparr>file_bytes = replicate 4294967301 CHR ''x'', file_pos = 5, seek_ok = True,
            tell_ok = True, read_max = 4294967301\<rparr>)"
proof -
  let ?R = "realloc_in_place CHR ''?'' 1 :: char allocator"
  let ?fp = "file_of (replicate 4294967301 CHR ''x'')"
  have p: "probe_size ?fp = Some 5"
    by (simp add: probe_size_def file_of_def fseek_end_def ftell_def Let_def)
  have a: "td__vec_alloc ?R 1 (heap_empty, vec_zero) 5
      = Returns (heap_empty(1 \<mapsto> replicate 1024 CHR ''?''),
          \<lparr>vec_data = Ptr 1 0, vec_size = 0, vec_alloc = 1024\<rparr>)"
    by (simp add: td__vec_alloc_def td__vec_alloc_loop.simps TD_VECINITSZ_def vec_zero_def
        realloc_in_place_def NULL_def cells_def Let_def)
  have f: "fread (heap_empty(1 \<mapsto> replicate 1024 CHR ''?'')) (Ptr 1 0) 5
        (rewind (snd (fseek_end ?fp)))
      = Some (heap_empty(1 \<mapsto> replicate 5 CHR ''x'' @ replicate 1019 CHR ''?''), 5,
          \<lparr>file_bytes = replicate 4294967301 CHR ''x'', file_pos = 5, seek_ok = True,
             tell_ok = True, read_max = 4294967301\<rparr>)"
    by (simp add: fread_def store_list_def file_of_def fseek_end_def rewind_def Let_def)
  have "td_read_file_to_string ?R (heap_empty, vec_zero) ?fp
     = Returns (True,
         (heap_empty(1 \<mapsto> replicate 5 CHR ''x'' @ replicate 1019 CHR ''?''),
          \<lparr>vec_data = Ptr 1 0, vec_size = 0, vec_alloc = 1024\<rparr>\<lparr>vec_size := 5\<rparr>),
         \<lparr>file_bytes = replicate 4294967301 CHR ''x'', file_pos = 5, seek_ok = True,
            tell_ok = True, read_max = 4294967301\<rparr>)"
    by (simp only: read_probe_Some [OF p] a and_then.simps prod.case vec_T.select_convs f
        option.case simp_thms if_False)
  with p show ?thesis by simp
qed

text \<open>
  C8. On a file of \<open>2 ^ 32 + 5\<close> bytes every call succeeds, but \<^verbatim>\<open>i32 file_size\<close> keeps only
  the low 32 bits of the length: the function reads 5 bytes, finds the count equal to the
  truncated length and returns \<^verbatim>\<open>true\<close> with \<open>size = 5\<close>. The claim asks for \<open>size\<close> equal
  to the length of the file and for the whole contents. (For files below \<open>2 ^ 31\<close> bytes
  the round trip holds, see \<open>read_small\<close>; the three failures return \<^verbatim>\<open>false\<close>.)
\<close>

theorem td_read_file_to_string_truncates_length:
  "length (file_bytes (file_of (replicate 4294967301 CHR ''x''))) = 4294967301
   \<and> td_read_file_to_string (realloc_in_place CHR ''?'' 1) (heap_empty, vec_zero)
       (file_of (replicate 4294967301 CHR ''x''))
     = Returns (True,
         (heap_empty(1 \<mapsto> replicate 5 CHR ''x'' @ replicate 1019 CHR ''?''),
          \<lparr>vec_data = Ptr 1 0, vec_size = 5, vec_alloc = 1024\<rparr>),
         \<lparr>file_bytes = replicate 4294967301 CHR ''x'', file_pos = 5, seek_ok = True,
            tell_ok = True, read_max = 4294967301\<rparr>)
   \<and> vec_elems (heap_empty(1 \<mapsto> replicate 5 CHR ''x'' @ replicate 1019 CHR ''?''))
         \<lparr>vec_data = Ptr 1 0, vec_size = 5, vec_alloc = 1024\<rparr> = replicate 5 CHR ''x''"
  using read_past_4_gib by (simp add: file_of_def vec_elems_def cells_def)

end
